theory Spec2Isabelle
  imports Main "HOL-Library.Word" "HOL-Library.Signed_Division"
begin

section \<open>The circular ring (fifo/circular\_fifo.hpp)\<close>

text \<open>
  The ring is modelled sequentially: one call runs to completion before the next one
  starts, so the atomics are plain fields and the mutex of the blocking mode has no
  effect on the result. The C++ \<open>int\<close> fields are HOL integers; every index and
  count the operations compute lies between \<open>-1\<close> and the capacity, so no 32-bit
  overflow is reachable for a capacity that fits an \<open>int\<close> (and watermarks for which
  \<open>high + 1\<close> and \<open>low - 1\<close> do). The operator \<open>%\<close> of C++ truncates towards
  zero and is \<open>smod\<close>.

  Elements are values that are copied bit by bit (the repository instantiates the ring
  with \<open>FFCmd*\<close>, \<open>AVFrame*\<close> and \<open>AVPacket*\<close>), so placement-new is a store
  into the slot and the destructor call leaves the slot as it is. The storage is
  obtained with \<open>malloc\<close>; its initial contents are the argument \<open>fill\<close> of the
  constructor, about which nothing is assumed.

  Callbacks (the two watermark handlers and the head monitor) are effects outside the
  ring. The field \<open>fired\<close> records every invocation, oldest first; a handler or
  monitor pointer is represented by whether it is non-null.
\<close>

datatype SP_Circular_Fifo_Mode =
  Circular_Fifo_Mode_Single_Producer_Lockless
| Circular_Fifo_Mode_Blocking

datatype ring_event = HighWaterMarkHandler | LowWaterMarkHandler | Fifo_new_head

record 'a circular_fifo =
  a_tail :: int
  a_head :: int
  a_count :: int
  array :: "'a list"
  natail :: int
  nahead :: int
  capacity :: int
  mode :: SP_Circular_Fifo_Mode
  headMonitor :: bool
  lowWaterMarkHandler :: bool
  highWaterMarkHandler :: bool
  highWaterMark :: int
  lowWaterMark :: int
  fired :: "ring_event list"

definition circular_fifo_new :: "int \<Rightarrow> SP_Circular_Fifo_Mode \<Rightarrow> 'a \<Rightarrow> 'a circular_fifo" where
  "circular_fifo_new fifoSize m fill =
     \<lparr> a_tail = 0, a_head = 0, a_count = 0,
       array = replicate (nat (fifoSize + 1)) fill,
       natail = 0, nahead = 0,
       capacity = fifoSize + 1,
       mode = m,
       headMonitor = False,
       lowWaterMarkHandler = False,
       highWaterMarkHandler = False,
       highWaterMark = - 1,
       lowWaterMark = - 1,
       fired = [] \<rparr>"

definition setHeadMonitor :: "bool \<Rightarrow> 'a circular_fifo \<Rightarrow> 'a circular_fifo" where
  "setHeadMonitor monitor r = r\<lparr>headMonitor := monitor\<rparr>"

definition setWaterMarkHandler ::
  "int \<Rightarrow> bool \<Rightarrow> int \<Rightarrow> bool \<Rightarrow> 'a circular_fifo \<Rightarrow> 'a circular_fifo" where
  "setWaterMarkHandler high highHandler low lowHandler r =
     r\<lparr>lowWaterMarkHandler := lowHandler,
       highWaterMarkHandler := highHandler,
       highWaterMark := high,
       lowWaterMark := low\<rparr>"

definition increment :: "'a circular_fifo \<Rightarrow> int \<Rightarrow> int" where
  "increment r idx = (idx + 1) smod capacity r"

definition decrement :: "'a circular_fifo \<Rightarrow> int \<Rightarrow> int" where
  "decrement r idx = (if idx - 1 < 0 then capacity r - 1 else idx - 1)"

definition storedCount :: "'a circular_fifo \<Rightarrow> int" where
  "storedCount r = a_count r"

definition call :: "bool \<Rightarrow> ring_event \<Rightarrow> 'a circular_fifo \<Rightarrow> 'a circular_fifo" where
  "call c e r = (if c then r\<lparr>fired := fired r @ [e]\<rparr> else r)"

text \<open>
  \<open>push\<close>: \<open>f\<close> is the value \<open>fetch_add\<close> returns, the count before the
  increment. The result is the returned boolean and the ring afterwards.
\<close>

definition push :: "'a \<Rightarrow> 'a circular_fifo \<Rightarrow> bool \<times> 'a circular_fifo" where
  "push item r =
     (if mode r = Circular_Fifo_Mode_Single_Producer_Lockless then
        (let current_tail = a_tail r;
             next_tail = increment r current_tail;
             head = a_head r
         in if next_tail \<noteq> head then
              (let r1 = r\<lparr>array := (array r)[nat current_tail := item]\<rparr>;
                   r2 = r1\<lparr>a_tail := next_tail\<rparr>;
                   f = a_count r2;
                   r3 = r2\<lparr>a_count := f + 1\<rparr>;
                   newHead = (f = 0);
                   r4 = call (highWaterMarkHandler r3 \<and> f = highWaterMark r3 + 1)
                          HighWaterMarkHandler r3;
                   r5 = call (headMonitor r4 \<and> newHead) Fifo_new_head r4
               in (True, r5))
            else (False, r))
      else
        (let newHead = (natail r = nahead r);
             current_tail = natail r;
             next_tail = increment r current_tail
         in if next_tail \<noteq> nahead r then
              (let r1 = r\<lparr>array := (array r)[nat current_tail := item]\<rparr>;
                   r2 = r1\<lparr>natail := next_tail\<rparr>;
                   f = a_count r2;
                   r3 = r2\<lparr>a_count := f + 1\<rparr>;
                   r4 = call (highWaterMarkHandler r3 \<and> f = highWaterMark r3 + 1)
                          HighWaterMarkHandler r3;
                   r5 = call (headMonitor r4 \<and> newHead) Fifo_new_head r4
               in (True, r5))
            else (False, r)))"

definition preempt :: "'a \<Rightarrow> 'a circular_fifo \<Rightarrow> bool \<times> 'a circular_fifo" where
  "preempt item r =
     (if mode r = Circular_Fifo_Mode_Single_Producer_Lockless then
        (let current_head = a_head r;
             next_head = decrement r current_head
         in if next_head \<noteq> a_tail r then
              (let r1 = r\<lparr>array := (array r)[nat next_head := item]\<rparr>;
                   r2 = r1\<lparr>a_head := next_head\<rparr>;
                   r3 = r2\<lparr>a_count := a_count r2 + 1\<rparr>;
                   r4 = call (headMonitor r3) Fifo_new_head r3
               in (True, r4))
            else (False, r))
      else
        (let current_head = nahead r;
             next_head = decrement r current_head
         in if next_head \<noteq> natail r then
              (let r1 = r\<lparr>array := (array r)[nat next_head := item]\<rparr>;
                   r2 = r1\<lparr>nahead := next_head\<rparr>;
                   r3 = r2\<lparr>a_count := a_count r2 + 1\<rparr>;
                   r4 = call (headMonitor r3) Fifo_new_head r3
               in (True, r4))
            else (False, r)))"

text \<open>
  \<open>pop\<close>: the first argument is the value the reference parameter \<open>item\<close> holds
  at the call; the result is the returned boolean, the value of \<open>item\<close> afterwards
  and the ring. In the lockless branch \<open>f\<close> is the count before the decrement; in
  the blocking branch \<open>newHead\<close> is the count after it.
\<close>

definition pop :: "'a \<Rightarrow> 'a circular_fifo \<Rightarrow> bool \<times> 'a \<times> 'a circular_fifo" where
  "pop item r =
     (if mode r = Circular_Fifo_Mode_Single_Producer_Lockless then
        (let current_head = a_head r
         in if current_head = a_tail r then (False, item, r)
            else
              (let item' = array r ! nat current_head;
                   r1 = r\<lparr>a_head := increment r current_head\<rparr>;
                   f = a_count r1;
                   r2 = r1\<lparr>a_count := f - 1\<rparr>;
                   r3 = call (lowWaterMarkHandler r2 \<and> f = lowWaterMark r2 - 1)
                          LowWaterMarkHandler r2;
                   r4 = call (f \<noteq> 1 \<and> headMonitor r3) Fifo_new_head r3
               in (True, item', r4)))
      else
        (let current_head = nahead r
         in if current_head = natail r then (False, item, r)
            else
              (let item' = array r ! nat current_head;
                   r1 = r\<lparr>nahead := increment r current_head\<rparr>;
                   newHead = a_count r1 - 1;
                   r2 = r1\<lparr>a_count := a_count r1 - 1\<rparr>;
                   r3 = call (lowWaterMarkHandler r2 \<and> newHead = lowWaterMark r2 - 1)
                          LowWaterMarkHandler r2;
                   r4 = call (newHead \<noteq> 0 \<and> headMonitor r3) Fifo_new_head r3
               in (True, item', r4))))"

text \<open>Popping up to \<open>n\<close> times, stopping at the first failure; the values popped, in order.\<close>

fun pops :: "nat \<Rightarrow> 'a \<Rightarrow> 'a circular_fifo \<Rightarrow> 'a list" where
  "pops 0 item r = []"
| "pops (Suc n) item r =
     (case pop item r of
        (False, _, _) \<Rightarrow> []
      | (True, v, r') \<Rightarrow> v # pops n v r')"

text \<open>Pushing a list of elements in order, as long as each push succeeds.\<close>

fun pushes :: "'a list \<Rightarrow> 'a circular_fifo \<Rightarrow> 'a circular_fifo" where
  "pushes [] r = r"
| "pushes (x # xs) r = pushes xs (snd (push x r))"

subsection \<open>The ring's invariant and its contents\<close>

text \<open>
  The indices in use depend on the mode: the atomics in the lockless mode, the plain
  pair in the blocking mode.
\<close>

definition idx_head :: "'a circular_fifo \<Rightarrow> int" where
  "idx_head r =
     (if mode r = Circular_Fifo_Mode_Single_Producer_Lockless then a_head r else nahead r)"

definition idx_tail :: "'a circular_fifo \<Rightarrow> int" where
  "idx_tail r =
     (if mode r = Circular_Fifo_Mode_Single_Producer_Lockless then a_tail r else natail r)"

definition ring_wf :: "'a circular_fifo \<Rightarrow> bool" where
  "ring_wf r \<longleftrightarrow>
     1 \<le> capacity r \<and> length (array r) = nat (capacity r) \<and>
     0 \<le> idx_head r \<and> idx_head r < capacity r \<and>
     0 \<le> idx_tail r \<and> idx_tail r < capacity r \<and>
     a_count r = (idx_tail r - idx_head r) mod capacity r"

text \<open>The stored elements, the one at the head first.\<close>

definition contents :: "'a circular_fifo \<Rightarrow> 'a list" where
  "contents r =
     map (\<lambda>k. array r ! nat ((idx_head r + int k) mod capacity r)) [0..<nat (a_count r)]"

text \<open>The slots \<open>h, h + 1, \<dots>\<close> (modulo \<open>c\<close>) of an array, \<open>n\<close> of them.\<close>

definition seg :: "'a list \<Rightarrow> int \<Rightarrow> int \<Rightarrow> nat \<Rightarrow> 'a list" where
  "seg arr c h n = map (\<lambda>k. arr ! nat ((h + int k) mod c)) [0..<n]"

section \<open>The counting semaphore (fifo/default\_semaphore\_impl.cpp)\<close>

text \<open>
  The semaphore is the operating system's; its state is the count. \<open>Wait\<close> on a zero
  count does not return until another thread posts: in the sequential model that is the
  value \<open>None\<close>. A failed \<open>TryWait\<close> and a timed-out \<open>WaitTimed\<close> return a
  platform-specific non-zero code (\<open>1\<close> in the header's contract and in the C++20
  branch); \<open>SEM_NOT_ACQUIRED\<close> stands for it, and only that it is non-zero matters.
  A timed wait on a zero count times out, since no other thread runs.
\<close>

type_synonym default_semaphore_impl = nat

definition SEM_NOT_ACQUIRED :: int where
  "SEM_NOT_ACQUIRED = 1"

definition default_semaphore_impl_new :: "nat \<Rightarrow> default_semaphore_impl" where
  "default_semaphore_impl_new initVal = initVal"

definition Post :: "default_semaphore_impl \<Rightarrow> int \<times> default_semaphore_impl" where
  "Post s = (0, Suc s)"

definition Wait :: "default_semaphore_impl \<Rightarrow> (int \<times> default_semaphore_impl) option" where
  "Wait s = (if 0 < s then Some (0, s - 1) else None)"

definition WaitTimed :: "int \<Rightarrow> default_semaphore_impl \<Rightarrow> int \<times> default_semaphore_impl" where
  "WaitTimed msecs s = (if 0 < s then (0, s - 1) else (SEM_NOT_ACQUIRED, s))"

definition TryWait :: "default_semaphore_impl \<Rightarrow> int \<times> default_semaphore_impl" where
  "TryWait s = (if 0 < s then (0, s - 1) else (SEM_NOT_ACQUIRED, s))"

function Reset :: "default_semaphore_impl \<Rightarrow> default_semaphore_impl" where
  "Reset s = (if fst (TryWait s) = 0 then Reset (snd (TryWait s)) else snd (TryWait s))"
  by pat_completeness auto
termination
  by (relation "measure (\<lambda>s. s)") (auto simp: TryWait_def SEM_NOT_ACQUIRED_def split: if_splits)

section \<open>The waitable bounded FIFO (fifo/bound\_fifo\_impl.hpp)\<close>

definition SPR_OK :: int where "SPR_OK = 0"
definition SPR_INVALID_PARAMETERS :: int where "SPR_INVALID_PARAMETERS = 1"
definition SPR_FLOWDISABLED :: int where "SPR_FLOWDISABLED = 13"
definition SPR_FIFOFULL :: int where "SPR_FIFOFULL = 29"

text \<open>
  \<open>readSem\<close> is \<open>None\<close> when the FIFO was built without a read semaphore. The
  constructor's \<open>unsigned int maxPackets\<close> is a 32-bit word: the write semaphore
  starts at its unsigned value, the \<open>int\<close> field \<open>_maxPackets\<close> holds its signed
  reading. The generic head monitor is represented by whether it is non-null; its
  invocations are the \<open>Fifo_new_head\<close> entries of the ring's \<open>fired\<close>.
\<close>

record 'a sproqet_generic_waitable_fifo =
  elements :: "'a circular_fifo"
  readSem :: "default_semaphore_impl option"
  writeSem :: default_semaphore_impl
  maxPackets :: int
  flowEnabled :: int
  genericHeadMonitor :: bool
  canUnwait :: bool
  userData :: nat
  tag :: "32 word"
  hasBeenRead :: bool

definition sproqet_generic_waitable_fifo_new ::
  "32 word \<Rightarrow> bool \<Rightarrow> bool \<Rightarrow> SP_Circular_Fifo_Mode \<Rightarrow> nat \<Rightarrow> 32 word \<Rightarrow> bool \<Rightarrow> 'a
     \<Rightarrow> 'a sproqet_generic_waitable_fifo" where
  "sproqet_generic_waitable_fifo_new maxP headMon readSemaphore m ud tg cu fill =
     \<lparr> elements =
         (let e = circular_fifo_new (sint maxP) m fill
          in if headMon then setHeadMonitor True e else e),
       readSem = (if readSemaphore then Some (default_semaphore_impl_new 0) else None),
       writeSem = default_semaphore_impl_new (unat maxP),
       maxPackets = sint maxP,
       flowEnabled = 0,
       genericHeadMonitor = headMon,
       canUnwait = cu,
       userData = ud,
       tag = tg,
       hasBeenRead = False \<rparr>"

definition signalRead :: "'a sproqet_generic_waitable_fifo \<Rightarrow> 'a sproqet_generic_waitable_fifo" where
  "signalRead f =
     (case readSem f of
        Some s \<Rightarrow> f\<lparr>readSem := Some (snd (Post s))\<rparr>
      | None \<Rightarrow> f)"

definition signalWrite :: "'a sproqet_generic_waitable_fifo \<Rightarrow> 'a sproqet_generic_waitable_fifo" where
  "signalWrite f = f\<lparr>writeSem := snd (Post (writeSem f))\<rparr>"

text \<open>
  \<open>_popPacket\<close>: \<open>dflt\<close> is the value-initialised \<open>Element{}\<close> (the null pointer
  for the pointer instantiations). The boolean \<open>pop\<close> returns is dropped, as in the
  source.
\<close>

definition popPacket ::
  "'a \<Rightarrow> 'a sproqet_generic_waitable_fifo \<Rightarrow> 'a \<times> 'a sproqet_generic_waitable_fifo" where
  "popPacket dflt f =
     (case pop dflt (elements f) of
        (_, retv, e) \<Rightarrow> (retv, signalWrite (f\<lparr>elements := e\<rparr>)))"

definition pushPacket ::
  "'a \<Rightarrow> 'a sproqet_generic_waitable_fifo \<Rightarrow> int \<times> 'a sproqet_generic_waitable_fifo" where
  "pushPacket packet f =
     (case push packet (elements f) of
        (True, e) \<Rightarrow> (SPR_OK, signalRead (f\<lparr>elements := e\<rparr>))
      | (False, e) \<Rightarrow> (SPR_FIFOFULL, f\<lparr>elements := e\<rparr>))"

text \<open>\<open>read\<close> (here \<open>fifo_read\<close>): the result is the returned \<open>int\<close>, the value stored into \<open>element\<close> and the FIFO.\<close>

definition fifo_read ::
  "'a \<Rightarrow> 'a sproqet_generic_waitable_fifo \<Rightarrow> int \<times> 'a \<times> 'a sproqet_generic_waitable_fifo" where
  "fifo_read dflt f =
     (case popPacket dflt f of
        (element, f1) \<Rightarrow> (1, element, f1\<lparr>hasBeenRead := True\<rparr>))"

definition fifo_write ::
  "'a \<Rightarrow> 'a sproqet_generic_waitable_fifo \<Rightarrow> int \<times> 'a sproqet_generic_waitable_fifo" where
  "fifo_write element f =
     (if flowEnabled f = 0 then (SPR_FLOWDISABLED, f) else pushPacket element f)"

definition fifo_preempt ::
  "'a \<Rightarrow> 'a sproqet_generic_waitable_fifo \<Rightarrow> int \<times> 'a sproqet_generic_waitable_fifo" where
  "fifo_preempt element f =
     (if flowEnabled f = 0 then (SPR_FLOWDISABLED, f)
      else
        (case preempt element (elements f) of
           (True, e) \<Rightarrow> (SPR_OK, signalRead (f\<lparr>elements := e\<rparr>))
         | (False, e) \<Rightarrow> (SPR_FIFOFULL, f\<lparr>elements := e\<rparr>)))"

definition waitForReadData ::
  "'a sproqet_generic_waitable_fifo \<Rightarrow> (int \<times> 'a sproqet_generic_waitable_fifo) option" where
  "waitForReadData f =
     (case readSem f of
        Some s \<Rightarrow>
          (case Wait s of
             Some (rc, s') \<Rightarrow> Some (rc, f\<lparr>readSem := Some s'\<rparr>)
           | None \<Rightarrow> None)
      | None \<Rightarrow> Some (SPR_FLOWDISABLED, f))"

definition tryWaitForReadData ::
  "'a sproqet_generic_waitable_fifo \<Rightarrow> int \<times> 'a sproqet_generic_waitable_fifo" where
  "tryWaitForReadData f =
     (case readSem f of
        None \<Rightarrow> (0, f)
      | Some s \<Rightarrow> (fst (TryWait s), f\<lparr>readSem := Some (snd (TryWait s))\<rparr>))"

definition tryWaitForWriteData ::
  "'a sproqet_generic_waitable_fifo \<Rightarrow> int \<times> 'a sproqet_generic_waitable_fifo" where
  "tryWaitForWriteData f =
     (if flowEnabled f = 0 then (SPR_FLOWDISABLED, f)
      else
        (let retv = fst (TryWait (writeSem f));
             f1 = f\<lparr>writeSem := snd (TryWait (writeSem f))\<rparr>
         in if flowEnabled f1 = 0 then (SPR_FLOWDISABLED, f1) else (retv, f1)))"

text \<open>
  \<open>waitForWriteSpace\<close> in two parts, split where the calling thread can be parked.
  \<open>waitForWriteSpace_wait\<close> is what follows the first reading of the flow flag: the
  wait on the write semaphore and the second reading of the flag. A thread parked in the
  wait resumes with it, on the FIFO as other threads have left it by then.
\<close>

definition waitForWriteSpace_wait ::
  "'a sproqet_generic_waitable_fifo \<Rightarrow> (int \<times> 'a sproqet_generic_waitable_fifo) option" where
  "waitForWriteSpace_wait f =
     (case Wait (writeSem f) of
        None \<Rightarrow> None
      | Some (_, s') \<Rightarrow>
          (let f1 = f\<lparr>writeSem := s'\<rparr>
           in Some (if flowEnabled f1 = 1 then SPR_OK else SPR_FLOWDISABLED, f1)))"

definition waitForWriteSpace ::
  "'a sproqet_generic_waitable_fifo \<Rightarrow> (int \<times> 'a sproqet_generic_waitable_fifo) option" where
  "waitForWriteSpace f =
     (if flowEnabled f = 0 then Some (SPR_FLOWDISABLED, f) else waitForWriteSpace_wait f)"

definition waitForReadDataTimed ::
  "int \<Rightarrow> 'a sproqet_generic_waitable_fifo \<Rightarrow> (int \<times> 'a sproqet_generic_waitable_fifo) option" where
  "waitForReadDataTimed msecs f =
     (case readSem f of
        None \<Rightarrow> Some (0, f)
      | Some s \<Rightarrow>
          if msecs < 1 then
            (case waitForReadData f of
               None \<Rightarrow> None
             | Some (_, f1) \<Rightarrow> Some (0, f1))
          else Some (fst (WaitTimed msecs s), f\<lparr>readSem := Some (snd (WaitTimed msecs s))\<rparr>))"

definition waitForWriteSpaceTimed ::
  "int \<Rightarrow> 'a sproqet_generic_waitable_fifo \<Rightarrow> (int \<times> 'a sproqet_generic_waitable_fifo) option" where
  "waitForWriteSpaceTimed msecs f =
     (if msecs < 1 then waitForWriteSpace f
      else if flowEnabled f = 0 then Some (SPR_FLOWDISABLED, f)
      else
        (let retv = fst (WaitTimed msecs (writeSem f));
             f1 = f\<lparr>writeSem := snd (WaitTimed msecs (writeSem f))\<rparr>
         in if flowEnabled f1 = 0 then Some (SPR_FLOWDISABLED, f1) else Some (retv, f1)))"

text \<open>
  \<open>setFlowEnabled\<close>. The statements that unstick waiters are four steps, in the
  order of the source: the post and the reset of the write semaphore when the ring is
  full, the post and the reset of the read semaphore when the ring is empty and the read
  semaphore exists. \<open>pcount\<close> and \<open>cap\<close> are the values read once, after the flag
  has been cleared. A thread parked on a semaphore can take the posted permit between
  the post and the reset.
\<close>

definition unstick_write_post ::
  "int \<Rightarrow> int \<Rightarrow> 'a sproqet_generic_waitable_fifo \<Rightarrow> 'a sproqet_generic_waitable_fifo" where
  "unstick_write_post pcount cap f =
     (if pcount = cap - 1 then f\<lparr>writeSem := snd (Post (writeSem f))\<rparr> else f)"

definition unstick_write_reset ::
  "int \<Rightarrow> int \<Rightarrow> 'a sproqet_generic_waitable_fifo \<Rightarrow> 'a sproqet_generic_waitable_fifo" where
  "unstick_write_reset pcount cap f =
     (if pcount = cap - 1 then f\<lparr>writeSem := Reset (writeSem f)\<rparr> else f)"

definition unstick_read_post ::
  "int \<Rightarrow> 'a sproqet_generic_waitable_fifo \<Rightarrow> 'a sproqet_generic_waitable_fifo" where
  "unstick_read_post pcount f =
     (case readSem f of
        Some s \<Rightarrow> if pcount = 0 then f\<lparr>readSem := Some (snd (Post s))\<rparr> else f
      | None \<Rightarrow> f)"

definition unstick_read_reset ::
  "int \<Rightarrow> 'a sproqet_generic_waitable_fifo \<Rightarrow> 'a sproqet_generic_waitable_fifo" where
  "unstick_read_reset pcount f =
     (case readSem f of
        Some s \<Rightarrow> if pcount = 0 then f\<lparr>readSem := Some (Reset s)\<rparr> else f
      | None \<Rightarrow> f)"

definition setFlowEnabled ::
  "bool \<Rightarrow> 'a sproqet_generic_waitable_fifo \<Rightarrow> 'a sproqet_generic_waitable_fifo" where
  "setFlowEnabled enabled f =
     (let flow = flowEnabled f
      in if (flow = 0 \<and> \<not> enabled) \<or> (flow = 1 \<and> enabled) then f
         else if enabled then f\<lparr>flowEnabled := 1\<rparr>
         else
           (let f1 = f\<lparr>flowEnabled := 0\<rparr>;
                pcount = storedCount (elements f1);
                cap = capacity (elements f1)
            in unstick_read_reset pcount
                 (unstick_read_post pcount
                    (unstick_write_reset pcount cap
                       (unstick_write_post pcount cap f1)))))"

text \<open>
  \<open>setFlowEnabled(false)\<close> on a FIFO whose flow is on, run while another thread is
  parked in a wait. In \<open>disable_waking_writer\<close> the thread parked in
  \<open>waitForWriteSpace\<close> resumes right after the post of the write semaphore; in
  \<open>disable_waking_reader\<close> the thread parked in \<open>waitForReadData\<close> resumes right
  after the post of the read semaphore. The result is what the resumed call returns and
  the FIFO once \<open>setFlowEnabled\<close> has finished, or \<open>None\<close> when the parked thread
  finds no permit at that point and stays parked.
\<close>

definition disable_waking_writer ::
  "'a sproqet_generic_waitable_fifo \<Rightarrow> (int \<times> 'a sproqet_generic_waitable_fifo) option" where
  "disable_waking_writer f =
     (let f1 = f\<lparr>flowEnabled := 0\<rparr>;
          pcount = storedCount (elements f1);
          cap = capacity (elements f1)
      in case waitForWriteSpace_wait (unstick_write_post pcount cap f1) of
           None \<Rightarrow> None
         | Some (rc, g) \<Rightarrow>
             Some (rc, unstick_read_reset pcount
                         (unstick_read_post pcount (unstick_write_reset pcount cap g))))"

definition disable_waking_reader ::
  "'a sproqet_generic_waitable_fifo \<Rightarrow> (int \<times> 'a sproqet_generic_waitable_fifo) option" where
  "disable_waking_reader f =
     (let f1 = f\<lparr>flowEnabled := 0\<rparr>;
          pcount = storedCount (elements f1);
          cap = capacity (elements f1)
      in case waitForReadData
                (unstick_read_post pcount
                   (unstick_write_reset pcount cap (unstick_write_post pcount cap f1))) of
           None \<Rightarrow> None
         | Some (rc, g) \<Rightarrow> Some (rc, unstick_read_reset pcount g))"

definition getFlowEnabled :: "'a sproqet_generic_waitable_fifo \<Rightarrow> bool" where
  "getFlowEnabled f \<longleftrightarrow> 0 < flowEnabled f"

definition fifo_storedCount :: "'a sproqet_generic_waitable_fifo \<Rightarrow> int" where
  "fifo_storedCount f = storedCount (elements f)"

definition fifo_setWaterMarkHandler ::
  "int \<Rightarrow> bool \<Rightarrow> int \<Rightarrow> bool \<Rightarrow> 'a sproqet_generic_waitable_fifo
     \<Rightarrow> 'a sproqet_generic_waitable_fifo" where
  "fifo_setWaterMarkHandler high highHandler low lowHandler f =
     f\<lparr>elements := setWaterMarkHandler high highHandler low lowHandler (elements f)\<rparr>"

subsection \<open>Sequences of calls on one FIFO\<close>

datatype 'a fifo_op =
  Op_read
| Op_write 'a
| Op_preempt 'a
| Op_waitForReadData
| Op_tryWaitForReadData
| Op_tryWaitForWriteData
| Op_waitForWriteSpace
| Op_waitForReadDataTimed int
| Op_waitForWriteSpaceTimed int
| Op_setFlowEnabled bool
| Op_setWaterMarkHandler int bool int bool

text \<open>
  One call: the returned code (\<open>0\<close> for a \<open>void\<close> method) and the FIFO afterwards,
  or \<open>None\<close> when the call waits on a semaphore whose count is zero.
\<close>

fun step ::
  "'a \<Rightarrow> 'a fifo_op \<Rightarrow> 'a sproqet_generic_waitable_fifo
     \<Rightarrow> (int \<times> 'a sproqet_generic_waitable_fifo) option" where
  "step dflt Op_read f = (case fifo_read dflt f of (rc, _, f') \<Rightarrow> Some (rc, f'))"
| "step dflt (Op_write x) f = Some (fifo_write x f)"
| "step dflt (Op_preempt x) f = Some (fifo_preempt x f)"
| "step dflt Op_waitForReadData f = waitForReadData f"
| "step dflt Op_tryWaitForReadData f = Some (tryWaitForReadData f)"
| "step dflt Op_tryWaitForWriteData f = Some (tryWaitForWriteData f)"
| "step dflt Op_waitForWriteSpace f = waitForWriteSpace f"
| "step dflt (Op_waitForReadDataTimed ms) f = waitForReadDataTimed ms f"
| "step dflt (Op_waitForWriteSpaceTimed ms) f = waitForWriteSpaceTimed ms f"
| "step dflt (Op_setFlowEnabled b) f = Some (0, setFlowEnabled b f)"
| "step dflt (Op_setWaterMarkHandler h hh l lh) f = Some (0, fifo_setWaterMarkHandler h hh l lh f)"

fun run ::
  "'a \<Rightarrow> 'a fifo_op list \<Rightarrow> 'a sproqet_generic_waitable_fifo
     \<Rightarrow> 'a sproqet_generic_waitable_fifo option" where
  "run dflt [] f = Some f"
| "run dflt (c # cs) f =
     (case step dflt c f of
        None \<Rightarrow> None
      | Some (_, f') \<Rightarrow> run dflt cs f')"

text \<open>
  What one call does to the number of stored elements: a write or a preempt that returns
  \<open>SPR_OK\<close> stores one, a read whose \<open>pop\<close> returns true takes one.
\<close>

datatype outcome = Stored_by_write | Stored_by_preempt | Taken_by_read | Nothing_moved

fun outcome_of :: "'a \<Rightarrow> 'a fifo_op \<Rightarrow> 'a sproqet_generic_waitable_fifo \<Rightarrow> outcome" where
  "outcome_of dflt (Op_write x) f =
     (if fst (fifo_write x f) = SPR_OK then Stored_by_write else Nothing_moved)"
| "outcome_of dflt (Op_preempt x) f =
     (if fst (fifo_preempt x f) = SPR_OK then Stored_by_preempt else Nothing_moved)"
| "outcome_of dflt Op_read f =
     (if fst (pop dflt (elements f)) then Taken_by_read else Nothing_moved)"
| "outcome_of dflt _ f = Nothing_moved"

fun outcomes ::
  "'a \<Rightarrow> 'a fifo_op list \<Rightarrow> 'a sproqet_generic_waitable_fifo \<Rightarrow> outcome list" where
  "outcomes dflt [] f = []"
| "outcomes dflt (c # cs) f =
     (case step dflt c f of
        None \<Rightarrow> []
      | Some (_, f') \<Rightarrow> outcome_of dflt c f # outcomes dflt cs f')"

subsection \<open>The command FIFO's C wrapper (ff\_cmd.cpp)\<close>

text \<open>
  A pointer is an address or null (\<open>None\<close>). \<open>FFCmdFifo\<close> instantiates the FIFO with
  \<open>FFCmd*\<close>. The second argument of \<open>ff_cmd_fifo_read\<close> is the location
  \<open>cmd\<close> points to (\<open>None\<close> when \<open>cmd\<close> is null); the result is the returned
  code, that location afterwards and the FIFO.
\<close>

type_synonym addr = nat

type_synonym FFCmdFifo = "addr option sproqet_generic_waitable_fifo"

definition FF_CMD_FIFO_OK :: int where "FF_CMD_FIFO_OK = 0"
definition FF_CMD_FIFO_INVALID_PARAMS :: int where "FF_CMD_FIFO_INVALID_PARAMS = 1"
definition FF_CMD_FIFO_FLOW_DISABLED :: int where "FF_CMD_FIFO_FLOW_DISABLED = 13"
definition FF_CMD_FIFO_FULL :: int where "FF_CMD_FIFO_FULL = 29"

definition ff_cmd_fifo_read ::
  "FFCmdFifo option \<Rightarrow> addr option option \<Rightarrow> int \<times> addr option option \<times> FFCmdFifo option" where
  "ff_cmd_fifo_read fifo cmd =
     (case (fifo, cmd) of
        (Some f, Some _) \<Rightarrow>
          (case fifo_read None f of
             (_, c, f') \<Rightarrow> (FF_CMD_FIFO_OK, Some c, Some f'))
      | _ \<Rightarrow> (FF_CMD_FIFO_INVALID_PARAMS, cmd, fifo))"

section \<open>Pooled commands (ff\_cmd.cpp, include/ff\_cmd.h)\<close>

text \<open>
  An \<open>IFFRefCounted\<close> is a pair of function pointers, each of which may be null. The
  functions of a payload's adapter belong to the caller; calling one is recorded in the
  store's \<open>calls\<close>, oldest first. A \<open>data_ref\<close> pointer is represented by the
  structure it points to.

  Memory is a total map from addresses to structures; \<open>calloc\<close>'s answer (a zeroed
  cell's address, or null) is an argument of the functions that allocate. Every cell's
  own \<open>ref\<close> member is \<open>cmd_ref_vtable\<close>, so the macros \<open>FF_CMD_ADDREF\<close> and
  \<open>FF_CMD_RELEASE\<close> call \<open>cmd_addref\<close> and \<open>cmd_release\<close>. The signed
  members (\<open>int32_t\<close>, \<open>int64_t\<close>) are two's-complement words, read with
  \<open>sint\<close>; \<open>__sync_add_and_fetch\<close> and \<open>__sync_sub_and_fetch\<close> wrap.
\<close>

record IFFRefCounted =
  AddRef :: "addr option"
  Release :: "addr option"

datatype FFCmdType =
  FF_CMD_NONE
| FF_CMD_FRAME
| FF_CMD_PACKET
| FF_CMD_FLUSH
| FF_CMD_EOS
| FF_CMD_SEEK
| FF_CMD_CONFIG
| FF_CMD_USER nat

record FFCmd =
  type :: FFCmdType
  data :: "addr option"
  data_ref :: "IFFRefCounted option"
  pts :: "64 word"
  dts :: "64 word"
  flags :: "32 word"
  stream_index :: "32 word"
  user_data :: "addr option"
  cmd_pool :: "addr option"
  cmd_next :: "addr option"
  cmd_refcount :: "32 word"

record FFCmdPool =
  free_list :: "addr option"
  all_cmds :: "addr option"
  total_count :: "32 word"
  free_count :: "32 word"
  max_size :: "32 word"

datatype ref_call = AddRef_call IFFRefCounted addr | Release_call IFFRefCounted addr

record store =
  cmds :: "addr \<Rightarrow> FFCmd"
  pools :: "addr \<Rightarrow> FFCmdPool"
  calls :: "ref_call list"

text \<open>The cell \<open>calloc\<close> returns: every member zero.\<close>

definition zeroed_FFCmd :: FFCmd where
  "zeroed_FFCmd =
     \<lparr> type = FF_CMD_NONE, data = None, data_ref = None, pts = 0, dts = 0, flags = 0,
       stream_index = 0, user_data = None, cmd_pool = None, cmd_next = None,
       cmd_refcount = 0 \<rparr>"

definition upd_cmd :: "addr \<Rightarrow> (FFCmd \<Rightarrow> FFCmd) \<Rightarrow> store \<Rightarrow> store" where
  "upd_cmd a g s = s\<lparr>cmds := (cmds s)(a := g (cmds s a))\<rparr>"

definition upd_pool :: "addr \<Rightarrow> (FFCmdPool \<Rightarrow> FFCmdPool) \<Rightarrow> store \<Rightarrow> store" where
  "upd_pool p g s = s\<lparr>pools := (pools s)(p := g (pools s p))\<rparr>"

definition ff_cmd_clear_data :: "addr option \<Rightarrow> store \<Rightarrow> store" where
  "ff_cmd_clear_data cmd s =
     (case cmd of
        None \<Rightarrow> s
      | Some a \<Rightarrow>
          (let s1 = (case (data (cmds s a), data_ref (cmds s a)) of
                       (Some d, Some r) \<Rightarrow>
                         if Release r \<noteq> None then s\<lparr>calls := calls s @ [Release_call r d]\<rparr>
                         else s
                     | _ \<Rightarrow> s)
           in upd_cmd a (\<lambda>c. c\<lparr>data := None, data_ref := None\<rparr>) s1))"

definition ff_cmd_set_data ::
  "addr option \<Rightarrow> addr option \<Rightarrow> IFFRefCounted option \<Rightarrow> store \<Rightarrow> store" where
  "ff_cmd_set_data cmd d dr s =
     (case cmd of
        None \<Rightarrow> s
      | Some a \<Rightarrow>
          (let s1 = ff_cmd_clear_data (Some a) s;
               s2 = upd_cmd a (\<lambda>c. c\<lparr>data := d, data_ref := dr\<rparr>) s1
           in case (d, dr) of
                (Some p, Some r) \<Rightarrow>
                  if AddRef r \<noteq> None then s2\<lparr>calls := calls s2 @ [AddRef_call r p]\<rparr>
                  else s2
              | _ \<Rightarrow> s2))"

definition ff_cmd_init :: "addr option \<Rightarrow> FFCmdType \<Rightarrow> store \<Rightarrow> store" where
  "ff_cmd_init cmd t s =
     (case cmd of
        None \<Rightarrow> s
      | Some a \<Rightarrow>
          upd_cmd a
            (\<lambda>c. c\<lparr>type := t, pts := 0, dts := 0, flags := 0, stream_index := 0,
                   user_data := None\<rparr>)
            (ff_cmd_clear_data (Some a) s))"

definition ff_cmd_pool_return :: "addr option \<Rightarrow> addr option \<Rightarrow> store \<Rightarrow> store" where
  "ff_cmd_pool_return pool cmd s =
     (case (pool, cmd) of
        (Some p, Some a) \<Rightarrow>
          (let s1 = upd_cmd a
                      (\<lambda>c. c\<lparr>type := FF_CMD_NONE, data := None, data_ref := None, pts := 0,
                             dts := 0, flags := 0, stream_index := 0, user_data := None\<rparr>) s;
               s2 = upd_cmd a (\<lambda>c. c\<lparr>cmd_next := free_list (pools s1 p)\<rparr>) s1
           in upd_pool p (\<lambda>P. P\<lparr>free_list := Some a, free_count := free_count P + 1\<rparr>) s2)
      | _ \<Rightarrow> s)"

definition cmd_addref :: "addr option \<Rightarrow> store \<Rightarrow> 32 word \<times> store" where
  "cmd_addref self s =
     (case self of
        None \<Rightarrow> (0, s)
      | Some a \<Rightarrow>
          (let n = cmd_refcount (cmds s a) + 1
           in (n, upd_cmd a (\<lambda>c. c\<lparr>cmd_refcount := n\<rparr>) s)))"

definition cmd_release :: "addr option \<Rightarrow> store \<Rightarrow> 32 word \<times> store" where
  "cmd_release self s =
     (case self of
        None \<Rightarrow> (0, s)
      | Some a \<Rightarrow>
          (let count = cmd_refcount (cmds s a) - 1;
               s1 = upd_cmd a (\<lambda>c. c\<lparr>cmd_refcount := count\<rparr>) s
           in if count = 0 then
                (let s2 = ff_cmd_clear_data (Some a) s1
                 in case cmd_pool (cmds s2 a) of
                      Some p \<Rightarrow> (count, ff_cmd_pool_return (Some p) (Some a) s2)
                    | None \<Rightarrow> (count, s2))
              else (count, s1)))"

text \<open>
  \<open>ff_cmd_pool_create\<close>: \<open>pa\<close> is the address \<open>new\<close> returns, \<open>mem\<close> the answers
  of the successive \<open>calloc\<close> calls (a missing answer counts as null). \<open>prealloc\<close> is
  the loop, its first argument the number of iterations left.
\<close>

fun prealloc :: "nat \<Rightarrow> addr \<Rightarrow> addr option list \<Rightarrow> store \<Rightarrow> store" where
  "prealloc 0 p mem s = s"
| "prealloc (Suc n) p [] s = s"
| "prealloc (Suc n) p (None # mem) s = s"
| "prealloc (Suc n) p (Some a # mem) s =
     prealloc n p mem
       (upd_pool p
          (\<lambda>P. P\<lparr>free_list := Some a, total_count := total_count P + 1,
                 free_count := free_count P + 1\<rparr>)
          (s\<lparr>cmds := (cmds s)(a := zeroed_FFCmd\<lparr>cmd_pool := Some p, cmd_refcount := 0,
                                                cmd_next := free_list (pools s p)\<rparr>)\<rparr>))"

definition ff_cmd_pool_create ::
  "32 word \<Rightarrow> 32 word \<Rightarrow> addr \<Rightarrow> addr option list \<Rightarrow> store \<Rightarrow> addr option \<times> store" where
  "ff_cmd_pool_create initial_size max_sz pa mem s =
     (Some pa,
      prealloc (unat initial_size) pa mem
        (s\<lparr>pools := (pools s)(pa := \<lparr> free_list = None, all_cmds = None, total_count = 0,
                                      free_count = 0, max_size = max_sz \<rparr>)\<rparr>))"

text \<open>\<open>ff_cmd_pool_acquire\<close>: \<open>mem\<close> is the answer of \<open>calloc\<close>, should it be called.\<close>

definition ff_cmd_pool_acquire :: "addr option \<Rightarrow> addr option \<Rightarrow> store \<Rightarrow> addr option \<times> store" where
  "ff_cmd_pool_acquire pool mem s =
     (case pool of
        None \<Rightarrow> (None, s)
      | Some p \<Rightarrow>
          (let (cmd, s1) =
                 (case free_list (pools s p) of
                    Some a \<Rightarrow>
                      (Some a,
                       upd_pool p
                         (\<lambda>P. P\<lparr>free_list := cmd_next (cmds s a),
                                free_count := free_count P - 1\<rparr>) s)
                  | None \<Rightarrow>
                      if max_size (pools s p) = 0 \<or> total_count (pools s p) < max_size (pools s p)
                      then
                        (case mem of
                           Some a \<Rightarrow>
                             (Some a,
                              upd_pool p (\<lambda>P. P\<lparr>total_count := total_count P + 1\<rparr>)
                                (s\<lparr>cmds := (cmds s)(a := zeroed_FFCmd\<lparr>cmd_pool := Some p\<rparr>)\<rparr>))
                         | None \<Rightarrow> (None, s))
                      else (None, s))
           in case cmd of
                Some a \<Rightarrow>
                  (Some a,
                   upd_cmd a
                     (\<lambda>c. c\<lparr>cmd_next := None, cmd_refcount := 1, type := FF_CMD_NONE,
                            data := None, data_ref := None, pts := 0, dts := 0, flags := 0,
                            stream_index := 0, user_data := None\<rparr>) s1)
              | None \<Rightarrow> (None, s1)))"

definition ff_cmd_pool_total_count :: "addr option \<Rightarrow> store \<Rightarrow> 32 word" where
  "ff_cmd_pool_total_count pool s = (case pool of None \<Rightarrow> 0 | Some p \<Rightarrow> total_count (pools s p))"

definition ff_cmd_pool_free_count :: "addr option \<Rightarrow> store \<Rightarrow> 32 word" where
  "ff_cmd_pool_free_count pool s = (case pool of None \<Rightarrow> 0 | Some p \<Rightarrow> free_count (pools s p))"

definition ff_cmd_pool_in_use_count :: "addr option \<Rightarrow> store \<Rightarrow> 32 word" where
  "ff_cmd_pool_in_use_count pool s =
     (case pool of None \<Rightarrow> 0 | Some p \<Rightarrow> total_count (pools s p) - free_count (pools s p))"

subsection \<open>Sequences of calls on one command\<close>

datatype cmd_op =
  C_init FFCmdType
| C_set_data "addr option" "IFFRefCounted option"
| C_clear_data
| C_addref
| C_release

fun cmd_step :: "addr \<Rightarrow> cmd_op \<Rightarrow> store \<Rightarrow> store" where
  "cmd_step c (C_init t) s = ff_cmd_init (Some c) t s"
| "cmd_step c (C_set_data d dr) s = ff_cmd_set_data (Some c) d dr s"
| "cmd_step c C_clear_data s = ff_cmd_clear_data (Some c) s"
| "cmd_step c C_addref s = snd (cmd_addref (Some c) s)"
| "cmd_step c C_release s = snd (cmd_release (Some c) s)"

fun cmd_run :: "addr \<Rightarrow> cmd_op list \<Rightarrow> store \<Rightarrow> store" where
  "cmd_run c [] s = s"
| "cmd_run c (x # xs) s = cmd_run c xs (cmd_step c x s)"

text \<open>A store in which nothing has been allocated and no adapter has been called.\<close>

definition empty_store :: store where
  "empty_store =
     \<lparr> cmds = (\<lambda>_. zeroed_FFCmd),
       pools = (\<lambda>_. \<lparr> free_list = None, all_cmds = None, total_count = 0, free_count = 0,
                      max_size = 0 \<rparr>),
       calls = [] \<rparr>"

text \<open>Scenario (d) of the specification: a blocking ring for eight elements after the pushes of \<open>65, 66, 67\<close>.\<close>

definition scenario_d :: "nat circular_fifo" where
  "scenario_d = pushes [65, 66, 67] (circular_fifo_new 8 Circular_Fifo_Mode_Blocking 0)"

subsection \<open>The FIFO's invariant and example FIFOs\<close>

text \<open>The invariant of the FIFO: its ring's invariant, and the ring's capacity.\<close>

definition fifo_wf :: "'a sproqet_generic_waitable_fifo \<Rightarrow> bool" where
  "fifo_wf f \<longleftrightarrow> ring_wf (elements f) \<and> capacity (elements f) = maxPackets f + 1"

text \<open>The change of the stored count that an outcome stands for.\<close>

fun moved :: "outcome \<Rightarrow> int" where
  "moved Stored_by_write = 1"
| "moved Stored_by_preempt = 1"
| "moved Taken_by_read = - 1"
| "moved Nothing_moved = 0"

text \<open>Example FIFOs of natural numbers, as their constructors leave them, and a sequence of calls.\<close>

definition fresh_fifo :: "nat sproqet_generic_waitable_fifo" where
  "fresh_fifo =
     sproqet_generic_waitable_fifo_new 4 False True Circular_Fifo_Mode_Blocking 0 0 True 0"

definition no_readsem_fifo :: "nat sproqet_generic_waitable_fifo" where
  "no_readsem_fifo =
     sproqet_generic_waitable_fifo_new 4 False False Circular_Fifo_Mode_Blocking 0 0 True 0"

definition scenario_calls :: "nat fifo_op list" where
  "scenario_calls =
     [Op_setFlowEnabled True, Op_write 1, Op_write 2, Op_write 3, Op_read, Op_preempt 9,
      Op_read, Op_read, Op_read]"

definition small_fifo :: "nat sproqet_generic_waitable_fifo" where
  "small_fifo =
     sproqet_generic_waitable_fifo_new 2 False True Circular_Fifo_Mode_Single_Producer_Lockless
       0 0 True 0"

text \<open>A FIFO holding one element whose flow has been switched off again.\<close>

definition flow_off_fifo :: "nat sproqet_generic_waitable_fifo" where
  "flow_off_fifo =
     setFlowEnabled False (snd (fifo_write 7 (setFlowEnabled True fresh_fifo)))"

text \<open>
  Example FIFOs with flow on: one whose ring is full and whose write permits are used up,
  so that a further \<open>waitForWriteSpace\<close> parks; one whose ring is empty, so that
  \<open>waitForReadData\<close> parks; and one whose two write permits have been taken without a
  write, so that a further \<open>waitForWriteSpace\<close> parks on a ring that is not full.
\<close>

definition parked_writer_fifo :: "nat sproqet_generic_waitable_fifo" where
  "parked_writer_fifo =
     snd (fifo_write 2 (snd (tryWaitForWriteData
       (snd (fifo_write 1 (snd (tryWaitForWriteData (setFlowEnabled True small_fifo))))))))"

definition parked_reader_fifo :: "nat sproqet_generic_waitable_fifo" where
  "parked_reader_fifo = setFlowEnabled True fresh_fifo"

definition reserved_fifo :: "nat sproqet_generic_waitable_fifo" where
  "reserved_fifo =
     snd (tryWaitForWriteData (snd (tryWaitForWriteData (setFlowEnabled True small_fifo))))"


text \<open>\<open>ff_cmd_fifo_create\<close> (ff\_cmd.cpp): no head monitor, a read semaphore, null user data, tag \<open>0\<close>.\<close>

datatype FFCmdFifoMode = FF_CMD_FIFO_LOCKLESS | FF_CMD_FIFO_BLOCKING

definition ff_cmd_fifo_create :: "32 word \<Rightarrow> FFCmdFifoMode \<Rightarrow> addr option \<Rightarrow> FFCmdFifo" where
  "ff_cmd_fifo_create cap md fill =
     sproqet_generic_waitable_fifo_new cap False True
       (if md = FF_CMD_FIFO_BLOCKING then Circular_Fifo_Mode_Blocking
        else Circular_Fifo_Mode_Single_Producer_Lockless)
       0 0 True fill"

text \<open>The ring after \<open>n\<close> calls of \<open>pop\<close>.\<close>

fun popped :: "nat \<Rightarrow> 'a \<Rightarrow> 'a circular_fifo \<Rightarrow> 'a circular_fifo" where
  "popped 0 item r = r"
| "popped (Suc n) item r = popped n (fst (snd (pop item r))) (snd (snd (pop item r)))"

text \<open>A ring for four elements with handlers set, \<open>high = 1\<close> and \<open>low = 2\<close>.\<close>

definition watermark_ring :: "SP_Circular_Fifo_Mode \<Rightarrow> nat circular_fifo" where
  "watermark_ring m = setWaterMarkHandler 1 True 2 True (circular_fifo_new 4 m 0)"

subsection \<open>Predicates and example stores for the pooled commands\<close>

text \<open>The state in which \<open>ff_cmd_pool_acquire\<close> hands out a cell.\<close>

definition clean_cell :: "FFCmd \<Rightarrow> bool" where
  "clean_cell c \<longleftrightarrow>
     cmd_refcount c = 1 \<and> type c = FF_CMD_NONE \<and> data c = None \<and> data_ref c = None \<and>
     pts c = 0 \<and> dts c = 0 \<and> flags c = 0 \<and> stream_index c = 0 \<and> user_data c = None \<and>
     cmd_next c = None"

text \<open>
  Scenario (e) of the specification: a pool at address \<open>100\<close> created with
  \<open>initial_size = 2\<close> and \<open>max_size = 2\<close>, its cells at addresses \<open>1\<close> and \<open>2\<close>.
\<close>

definition pool_e0 :: store where
  "pool_e0 = snd (ff_cmd_pool_create 2 2 100 [Some 1, Some 2] empty_store)"

text \<open>After \<open>c1\<close> (the cell at \<open>2\<close>) and \<open>c2\<close> (the cell at \<open>1\<close>) have been acquired.\<close>

definition pool_e2 :: store where
  "pool_e2 =
     snd (ff_cmd_pool_acquire (Some 100) None
       (snd (ff_cmd_pool_acquire (Some 100) None pool_e0)))"

text \<open>After \<open>c1\<close> has been add-ref'd twice and released twice.\<close>

definition scenario_e :: store where
  "scenario_e = cmd_run 2 [C_addref, C_addref, C_release, C_release] pool_e2"

text \<open>An unlimited pool at address \<open>100\<close> without preallocated cells.\<close>

definition pool_unlimited :: store where
  "pool_unlimited = snd (ff_cmd_pool_create 0 0 100 [] empty_store)"

text \<open>
  Whether the command at \<open>c\<close> currently holds payload \<open>p\<close> with adapter \<open>r\<close>, as a
  number.
\<close>

definition held :: "store \<Rightarrow> addr \<Rightarrow> IFFRefCounted \<Rightarrow> addr \<Rightarrow> nat" where
  "held s c r p = (if data (cmds s c) = Some p \<and> data_ref (cmds s c) = Some r then 1 else 0)"

text \<open>Every \<open>AddRef\<close> call on \<open>p\<close> is matched by a \<open>Release\<close> call, but for the reference held.\<close>

definition balanced :: "store \<Rightarrow> addr \<Rightarrow> IFFRefCounted \<Rightarrow> addr \<Rightarrow> bool" where
  "balanced s c r p \<longleftrightarrow>
     count_list (calls s) (AddRef_call r p) = count_list (calls s) (Release_call r p) + held s c r p"

text \<open>Two adapters: one with both functions, one whose \<open>Release\<close> is null; and a sequence of calls on a command.\<close>

definition both_adapter :: IFFRefCounted where
  "both_adapter = \<lparr> AddRef = Some 1000, Release = Some 1001 \<rparr>"

definition addref_only_adapter :: IFFRefCounted where
  "addref_only_adapter = \<lparr> AddRef = Some 1000, Release = None \<rparr>"

definition scenario_f_calls :: "cmd_op list" where
  "scenario_f_calls =
     [C_set_data (Some 50) (Some both_adapter), C_addref, C_init FF_CMD_FRAME,
      C_set_data (Some 50) (Some both_adapter), C_release]"

section \<open>Properties of the ring\<close>

subsection \<open>Index arithmetic\<close>

lemma smod_nonneg: "0 \<le> a \<Longrightarrow> 0 < b \<Longrightarrow> (a::int) smod b = a mod b"
  by (simp add: smod_int_alt_def sgn_if)

lemma mod_shift_neq:
  fixes h c :: int
  assumes "0 < c" "j < k" "int k < c"
  shows "(h + int j) mod c \<noteq> (h + int k) mod c"
proof
  assume "(h + int j) mod c = (h + int k) mod c"
  then have "c dvd (h + int k) - (h + int j)"
    by (metis mod_eq_dvd_iff)
  then have "c dvd int k - int j" by simp
  moreover have "0 < int k - int j" "int k - int j < c" using assms by auto
  ultimately show False
    using zdvd_not_zless by blast
qed

lemma seg_snoc:
  assumes "0 < c" "int n < c" "length arr = nat c"
  shows "seg (arr[nat ((h + int n) mod c) := x]) c h (Suc n) = seg arr c h n @ [x]"
proof -
  have in_range: "nat ((h + int n) mod c) < length arr"
    using assms by (simp add: nat_less_iff)
  have other: "\<And>k. k < n \<Longrightarrow>
      arr[nat ((h + int n) mod c) := x] ! nat ((h + int k) mod c) = arr ! nat ((h + int k) mod c)"
  proof -
    fix k assume "k < n"
    then have "(h + int k) mod c \<noteq> (h + int n) mod c"
      using mod_shift_neq assms by blast
    moreover have "0 \<le> (h + int k) mod c" "0 \<le> (h + int n) mod c" using assms by simp_all
    ultimately have "nat ((h + int k) mod c) \<noteq> nat ((h + int n) mod c)" by simp
    then show "arr[nat ((h + int n) mod c) := x] ! nat ((h + int k) mod c) = arr ! nat ((h + int k) mod c)"
      by simp
  qed
  show ?thesis
    using in_range other by (simp add: seg_def)
qed

lemma seg_cons:
  assumes "0 < c" "int n < c" "length arr = nat c"
  shows "seg (arr[nat ((h - 1) mod c) := x]) c ((h - 1) mod c) (Suc n) = x # seg arr c h n"
proof -
  have in_range: "nat ((h - 1) mod c) < length arr"
    using assms by (simp add: nat_less_iff)
  have shift: "\<And>k. ((h - 1) mod c + int (Suc k)) mod c = (h + int k) mod c"
  proof -
    fix k
    have "((h - 1) mod c + int (Suc k)) mod c = (h - 1 + int (Suc k)) mod c"
      by (rule mod_add_left_eq)
    also have "h - 1 + int (Suc k) = h + int k" by simp
    finally show "((h - 1) mod c + int (Suc k)) mod c = (h + int k) mod c" .
  qed
  have other: "\<And>k. k < n \<Longrightarrow>
      arr[nat ((h - 1) mod c) := x] ! nat ((h + int k) mod c) = arr ! nat ((h + int k) mod c)"
  proof -
    fix k assume "k < n"
    then have "((h - 1) + int 0) mod c \<noteq> ((h - 1) + int (Suc k)) mod c"
      using mod_shift_neq [of c 0 "Suc k" "h - 1"] assms by simp
    then have "(h - 1) mod c \<noteq> (h + int k) mod c" by simp
    moreover have "0 \<le> (h + int k) mod c" "0 \<le> (h - 1) mod c" using assms by simp_all
    ultimately have "nat ((h + int k) mod c) \<noteq> nat ((h - 1) mod c)" by simp
    then show "arr[nat ((h - 1) mod c) := x] ! nat ((h + int k) mod c) = arr ! nat ((h + int k) mod c)"
      by simp
  qed
  have "seg (arr[nat ((h - 1) mod c) := x]) c ((h - 1) mod c) (Suc n)
      = map (\<lambda>k. arr[nat ((h - 1) mod c) := x] ! nat (((h - 1) mod c + int k) mod c)) (0 # map Suc [0..<n])"
    unfolding seg_def by (simp only: upt_conv_Cons [of 0 "Suc n"] map_Suc_upt)
  also have "\<dots> = x # map (\<lambda>k. arr[nat ((h - 1) mod c) := x] ! nat ((h + int k) mod c)) [0..<n]"
    using in_range shift by (simp add: comp_def)
  also have "\<dots> = x # seg arr c h n"
    using other by (simp add: seg_def)
  finally show ?thesis .
qed

lemma seg_Suc:
  assumes "0 \<le> h" "h < c"
  shows "seg arr c h (Suc n) = arr ! nat h # seg arr c ((h + 1) mod c) n"
proof -
  have shift: "\<And>k. ((h + 1) mod c + int k) mod c = (h + int (Suc k)) mod c"
  proof -
    fix k
    have "((h + 1) mod c + int k) mod c = (h + 1 + int k) mod c"
      by (rule mod_add_left_eq)
    also have "h + 1 + int k = h + int (Suc k)" by simp
    finally show "((h + 1) mod c + int k) mod c = (h + int (Suc k)) mod c" .
  qed
  have "seg arr c h (Suc n) = map (\<lambda>k. arr ! nat ((h + int k) mod c)) (0 # map Suc [0..<n])"
    unfolding seg_def by (simp only: upt_conv_Cons [of 0 "Suc n"] map_Suc_upt)
  also have "\<dots> = arr ! nat h # map (\<lambda>k. arr ! nat ((h + int (Suc k)) mod c)) [0..<n]"
    using assms by (simp add: comp_def)
  also have "\<dots> = arr ! nat h # seg arr c ((h + 1) mod c) n"
    unfolding seg_def using shift by simp
  finally show ?thesis .
qed

lemma contents_seg: "contents r = seg (array r) (capacity r) (idx_head r) (nat (a_count r))"
  by (simp add: contents_def seg_def)

lemma increment_mod: "0 \<le> i \<Longrightarrow> 0 < capacity r \<Longrightarrow> increment r i = (i + 1) mod capacity r"
  by (simp add: increment_def smod_nonneg)

lemma decrement_mod: "0 \<le> i \<Longrightarrow> i < capacity r \<Longrightarrow> decrement r i = (i - 1) mod capacity r"
proof (cases "i = 0")
  case True
  assume "i < capacity r"
  with True have "(- 1) mod capacity r = capacity r - 1"
    by (simp add: zmod_minus1)
  with True show ?thesis by (simp add: decrement_def)
next
  case False
  assume "0 \<le> i" "i < capacity r"
  with False show ?thesis by (simp add: decrement_def)
qed

lemma ring_wf_count_range: "ring_wf r \<Longrightarrow> 0 \<le> a_count r \<and> a_count r \<le> capacity r - 1"
  by (simp add: ring_wf_def)

lemma ring_wf_empty_iff: "ring_wf r \<Longrightarrow> idx_head r = idx_tail r \<longleftrightarrow> a_count r = 0"
proof -
  assume wf: "ring_wf r"
  let ?c = "capacity r" and ?h = "idx_head r" and ?t = "idx_tail r"
  from wf have b: "0 < ?c" "0 \<le> ?h" "?h < ?c" "0 \<le> ?t" "?t < ?c"
    and cnt: "a_count r = (?t - ?h) mod ?c"
    by (simp_all add: ring_wf_def)
  show ?thesis
  proof
    assume "?h = ?t" then show "a_count r = 0" using cnt by simp
  next
    assume "a_count r = 0"
    then have "?c dvd ?t - ?h" using cnt by (simp add: dvd_eq_mod_eq_0)
    moreover have "\<bar>?t - ?h\<bar> < ?c" using b by auto
    ultimately have "?t - ?h = 0"
    proof -
      assume d: "?c dvd ?t - ?h" and lt: "\<bar>?t - ?h\<bar> < ?c"
      show ?thesis
      proof (rule ccontr)
        assume "?t - ?h \<noteq> 0"
        then have "\<bar>?c\<bar> \<le> \<bar>?t - ?h\<bar>" using d by (rule dvd_imp_le_int)
        then show False using lt by simp
      qed
    qed
    then show "?h = ?t" by simp
  qed
qed

lemma ring_wf_tail: "ring_wf r \<Longrightarrow> idx_tail r = (idx_head r + a_count r) mod capacity r"
proof -
  assume wf: "ring_wf r"
  let ?c = "capacity r" and ?h = "idx_head r" and ?t = "idx_tail r"
  from wf have b: "0 < ?c" "0 \<le> ?t" "?t < ?c"
    and cnt: "a_count r = (?t - ?h) mod ?c"
    by (simp_all add: ring_wf_def)
  have "(?h + a_count r) mod ?c = (?h + (?t - ?h)) mod ?c"
    unfolding cnt by (rule mod_add_right_eq)
  also have "\<dots> = ?t" using b by simp
  finally show ?thesis by simp
qed

lemma ring_wf_full_iff:
  assumes wf: "ring_wf r"
  shows "increment r (idx_tail r) = idx_head r \<longleftrightarrow> a_count r = capacity r - 1"
    and "decrement r (idx_head r) = idx_tail r \<longleftrightarrow> a_count r = capacity r - 1"
proof -
  let ?c = "capacity r" and ?h = "idx_head r" and ?t = "idx_tail r"
  from wf have b: "0 < ?c" "0 \<le> ?h" "?h < ?c" "0 \<le> ?t" "?t < ?c"
    and cnt: "a_count r = (?t - ?h) mod ?c"
    by (simp_all add: ring_wf_def)
  have key: "(?t + 1) mod ?c = ?h \<longleftrightarrow> (?t - ?h) mod ?c = ?c - 1"
  proof
    assume "(?t + 1) mod ?c = ?h"
    then have "(?t + 1) mod ?c = ?h mod ?c" using b by simp
    then have "?c dvd (?t + 1) - ?h" by (metis mod_eq_dvd_iff)
    then have "?c dvd (?t - ?h) - (- 1)" by (simp add: algebra_simps)
    then have "(?t - ?h) mod ?c = (- 1) mod ?c" by (metis mod_eq_dvd_iff)
    then show "(?t - ?h) mod ?c = ?c - 1" using b by (simp add: zmod_minus1)
  next
    assume "(?t - ?h) mod ?c = ?c - 1"
    then have "(?t - ?h) mod ?c = (- 1) mod ?c" using b by (simp add: zmod_minus1)
    then have "?c dvd (?t - ?h) - (- 1)" by (metis mod_eq_dvd_iff)
    then have "?c dvd (?t + 1) - ?h" by (simp add: algebra_simps)
    then have "(?t + 1) mod ?c = ?h mod ?c" by (metis mod_eq_dvd_iff)
    then show "(?t + 1) mod ?c = ?h" using b by simp
  qed
  have key2: "(?h - 1) mod ?c = ?t \<longleftrightarrow> (?t + 1) mod ?c = ?h"
  proof
    assume "(?h - 1) mod ?c = ?t"
    then have "(?t + 1) mod ?c = ((?h - 1) mod ?c + 1) mod ?c" by simp
    also have "\<dots> = (?h - 1 + 1) mod ?c" by (rule mod_add_left_eq)
    finally show "(?t + 1) mod ?c = ?h" using b by simp
  next
    assume "(?t + 1) mod ?c = ?h"
    then have "(?h - 1) mod ?c = ((?t + 1) mod ?c - 1) mod ?c" by simp
    also have "\<dots> = (?t + 1 - 1) mod ?c" by (rule mod_diff_left_eq)
    finally show "(?h - 1) mod ?c = ?t" using b by simp
  qed
  show "increment r ?t = ?h \<longleftrightarrow> a_count r = ?c - 1"
    using key b cnt by (simp add: increment_mod)
  show "decrement r ?h = ?t \<longleftrightarrow> a_count r = ?c - 1"
    using key key2 b cnt by (simp add: decrement_mod)
qed

lemma push_fields:
  assumes "increment r (idx_tail r) \<noteq> idx_head r"
  shows "fst (push x r)"
    and "mode (snd (push x r)) = mode r"
    and "capacity (snd (push x r)) = capacity r"
    and "idx_head (snd (push x r)) = idx_head r"
    and "idx_tail (snd (push x r)) = increment r (idx_tail r)"
    and "array (snd (push x r)) = (array r)[nat (idx_tail r) := x]"
    and "a_count (snd (push x r)) = a_count r + 1"
  using assms
  by (cases "mode r"; simp add: push_def Let_def call_def idx_head_def idx_tail_def increment_def)+

lemma push_full:
  assumes "increment r (idx_tail r) = idx_head r"
  shows "push x r = (False, r)"
  using assms by (cases "mode r"; simp add: push_def Let_def idx_head_def idx_tail_def)

lemma preempt_fields:
  assumes "decrement r (idx_head r) \<noteq> idx_tail r"
  shows "fst (preempt x r)"
    and "mode (snd (preempt x r)) = mode r"
    and "capacity (snd (preempt x r)) = capacity r"
    and "idx_head (snd (preempt x r)) = decrement r (idx_head r)"
    and "idx_tail (snd (preempt x r)) = idx_tail r"
    and "array (snd (preempt x r)) = (array r)[nat (decrement r (idx_head r)) := x]"
    and "a_count (snd (preempt x r)) = a_count r + 1"
  using assms
  by (cases "mode r"; simp add: preempt_def Let_def call_def idx_head_def idx_tail_def decrement_def)+

lemma preempt_full:
  assumes "decrement r (idx_head r) = idx_tail r"
  shows "preempt x r = (False, r)"
  using assms by (cases "mode r"; simp add: preempt_def Let_def idx_head_def idx_tail_def)

lemma pop_fields:
  assumes "idx_head r \<noteq> idx_tail r"
  shows "fst (pop item r)"
    and "fst (snd (pop item r)) = array r ! nat (idx_head r)"
    and "mode (snd (snd (pop item r))) = mode r"
    and "capacity (snd (snd (pop item r))) = capacity r"
    and "idx_head (snd (snd (pop item r))) = increment r (idx_head r)"
    and "idx_tail (snd (snd (pop item r))) = idx_tail r"
    and "array (snd (snd (pop item r))) = array r"
    and "a_count (snd (snd (pop item r))) = a_count r - 1"
  using assms
  by (cases "mode r"; simp add: pop_def Let_def call_def idx_head_def idx_tail_def increment_def)+

lemma pop_empty:
  assumes "idx_head r = idx_tail r"
  shows "pop item r = (False, item, r)"
  using assms by (cases "mode r"; simp add: pop_def Let_def idx_head_def idx_tail_def)

lemma push_wf:
  assumes wf: "ring_wf r" and nf: "a_count r \<noteq> capacity r - 1"
  shows "fst (push x r)"
    and "ring_wf (snd (push x r))"
    and "contents (snd (push x r)) = contents r @ [x]"
    and "a_count (snd (push x r)) = a_count r + 1"
proof -
  let ?c = "capacity r" and ?h = "idx_head r" and ?t = "idx_tail r" and ?r' = "snd (push x r)"
  from wf have b: "0 < ?c" "0 \<le> ?h" "?h < ?c" "0 \<le> ?t" "?t < ?c"
    and len: "length (array r) = nat ?c"
    and cnt: "a_count r = (?t - ?h) mod ?c"
    by (simp_all add: ring_wf_def)
  from wf nf have go: "increment r ?t \<noteq> ?h" by (simp add: ring_wf_full_iff)
  note f = push_fields [OF go, of x]
  have inc: "increment r ?t = (?t + 1) mod ?c" using b by (simp add: increment_mod)
  have rng: "0 \<le> a_count r" "a_count r < ?c - 1"
    using ring_wf_count_range [OF wf] nf by simp_all
  show "fst (push x r)" by (rule f)
  show c1: "a_count ?r' = a_count r + 1" by (rule f)
  have "(idx_tail ?r' - idx_head ?r') mod ?c = ((?t + 1) mod ?c - ?h) mod ?c"
    by (simp add: f inc)
  also have "\<dots> = (?t + 1 - ?h) mod ?c" by (rule mod_diff_left_eq)
  also have "?t + 1 - ?h = (?t - ?h) + 1" by simp
  also have "((?t - ?h) + 1) mod ?c = ((?t - ?h) mod ?c + 1) mod ?c"
    by (rule mod_add_left_eq [symmetric])
  also have "\<dots> = a_count r + 1" using rng cnt by simp
  finally have cnt': "a_count ?r' = (idx_tail ?r' - idx_head ?r') mod capacity ?r'"
    by (simp add: f)
  show "ring_wf ?r'"
    unfolding ring_wf_def using b len cnt' by (simp add: f inc)
  have t: "?t = (?h + int (nat (a_count r))) mod ?c"
    using ring_wf_tail [OF wf] rng by simp
  have "contents ?r' = seg ((array r)[nat ?t := x]) ?c ?h (Suc (nat (a_count r)))"
    using rng by (simp add: contents_seg f nat_add_distrib)
  also have "\<dots> = seg ((array r)[nat ((?h + int (nat (a_count r))) mod ?c) := x]) ?c ?h (Suc (nat (a_count r)))"
    using t by simp
  also have "\<dots> = seg (array r) ?c ?h (nat (a_count r)) @ [x]"
    using b rng len by (intro seg_snoc) simp_all
  finally show "contents ?r' = contents r @ [x]" by (simp add: contents_seg)
qed

lemma preempt_wf:
  assumes wf: "ring_wf r" and nf: "a_count r \<noteq> capacity r - 1"
  shows "fst (preempt x r)"
    and "ring_wf (snd (preempt x r))"
    and "contents (snd (preempt x r)) = x # contents r"
    and "a_count (snd (preempt x r)) = a_count r + 1"
proof -
  let ?c = "capacity r" and ?h = "idx_head r" and ?t = "idx_tail r" and ?r' = "snd (preempt x r)"
  from wf have b: "0 < ?c" "0 \<le> ?h" "?h < ?c" "0 \<le> ?t" "?t < ?c"
    and len: "length (array r) = nat ?c"
    and cnt: "a_count r = (?t - ?h) mod ?c"
    by (simp_all add: ring_wf_def)
  from wf nf have go: "decrement r ?h \<noteq> ?t" by (simp add: ring_wf_full_iff)
  note f = preempt_fields [OF go, of x]
  have dec: "decrement r ?h = (?h - 1) mod ?c" using b by (simp add: decrement_mod)
  have rng: "0 \<le> a_count r" "a_count r < ?c - 1"
    using ring_wf_count_range [OF wf] nf by simp_all
  show "fst (preempt x r)" by (rule f)
  show "a_count ?r' = a_count r + 1" by (rule f)
  have "(idx_tail ?r' - idx_head ?r') mod ?c = (?t - (?h - 1) mod ?c) mod ?c"
    by (simp add: f dec)
  also have "\<dots> = (?t - (?h - 1)) mod ?c" by (rule mod_diff_right_eq)
  also have "?t - (?h - 1) = (?t - ?h) + 1" by simp
  also have "((?t - ?h) + 1) mod ?c = ((?t - ?h) mod ?c + 1) mod ?c"
    by (rule mod_add_left_eq [symmetric])
  also have "\<dots> = a_count r + 1" using rng cnt by simp
  finally have cnt': "a_count ?r' = (idx_tail ?r' - idx_head ?r') mod capacity ?r'"
    by (simp add: f)
  show "ring_wf ?r'"
    unfolding ring_wf_def using b len cnt' by (simp add: f dec)
  have "contents ?r' =
      seg ((array r)[nat ((?h - 1) mod ?c) := x]) ?c ((?h - 1) mod ?c) (Suc (nat (a_count r)))"
    using rng by (simp add: contents_seg f dec nat_add_distrib)
  also have "\<dots> = x # seg (array r) ?c ?h (nat (a_count r))"
    using b rng len by (intro seg_cons) simp_all
  finally show "contents ?r' = x # contents r" by (simp add: contents_seg)
qed

lemma pop_wf:
  assumes wf: "ring_wf r" and ne: "a_count r \<noteq> 0"
  shows "fst (pop item r)"
    and "ring_wf (snd (snd (pop item r)))"
    and "contents r = fst (snd (pop item r)) # contents (snd (snd (pop item r)))"
    and "a_count (snd (snd (pop item r))) = a_count r - 1"
proof -
  let ?c = "capacity r" and ?h = "idx_head r" and ?t = "idx_tail r"
  let ?r' = "snd (snd (pop item r))"
  from wf have b: "0 < ?c" "0 \<le> ?h" "?h < ?c" "0 \<le> ?t" "?t < ?c"
    and len: "length (array r) = nat ?c"
    and cnt: "a_count r = (?t - ?h) mod ?c"
    by (simp_all add: ring_wf_def)
  from wf ne have go: "?h \<noteq> ?t" by (simp add: ring_wf_empty_iff)
  note f = pop_fields [OF go, of item]
  have inc: "increment r ?h = (?h + 1) mod ?c" using b by (simp add: increment_mod)
  have rng: "0 < a_count r" "a_count r \<le> ?c - 1"
    using ring_wf_count_range [OF wf] ne by simp_all
  show "fst (pop item r)" by (rule f)
  show "a_count ?r' = a_count r - 1" by (rule f)
  have "(idx_tail ?r' - idx_head ?r') mod ?c = (?t - (?h + 1) mod ?c) mod ?c"
    by (simp add: f inc)
  also have "\<dots> = (?t - (?h + 1)) mod ?c" by (rule mod_diff_right_eq)
  also have "?t - (?h + 1) = (?t - ?h) - 1" by simp
  also have "((?t - ?h) - 1) mod ?c = ((?t - ?h) mod ?c - 1) mod ?c"
    by (rule mod_diff_left_eq [symmetric])
  also have "\<dots> = a_count r - 1" using rng cnt by simp
  finally have cnt': "a_count ?r' = (idx_tail ?r' - idx_head ?r') mod capacity ?r'"
    by (simp add: f)
  show "ring_wf ?r'"
    unfolding ring_wf_def using b len cnt' by (simp add: f inc)
  obtain n where n: "nat (a_count r) = Suc n"
    using rng by (cases "nat (a_count r)") simp_all
  then have n': "nat (a_count r - 1) = n" by simp
  have "contents r = seg (array r) ?c ?h (Suc n)" by (simp add: contents_seg n)
  also have "\<dots> = array r ! nat ?h # seg (array r) ?c ((?h + 1) mod ?c) n"
    using b by (intro seg_Suc) simp_all
  also have "\<dots> = fst (snd (pop item r)) # contents ?r'"
    by (simp add: contents_seg f inc n')
  finally show "contents r = fst (snd (pop item r)) # contents ?r'" .
qed

lemma pop_wf_empty:
  assumes wf: "ring_wf r" and e: "a_count r = 0"
  shows "pop item r = (False, item, r)"
  using wf e by (simp add: pop_empty ring_wf_empty_iff)

lemma contents_length: "ring_wf r \<Longrightarrow> length (contents r) = nat (a_count r)"
  by (simp add: contents_def)

lemma pops_take: "ring_wf r \<Longrightarrow> pops n item r = take n (contents r)"
proof (induction n arbitrary: item r)
  case 0
  then show ?case by simp
next
  case (Suc n)
  show ?case
  proof (cases "a_count r = 0")
    case True
    then have "contents r = []" by (simp add: contents_def)
    then show ?thesis using pop_wf_empty [OF Suc.prems True] by simp
  next
    case False
    note p = pop_wf [OF Suc.prems False, of item]
    obtain ok v r' where pr: "pop item r = (ok, v, r')" by (cases "pop item r") auto
    with p have ok and wf': "ring_wf r'" and c: "contents r = v # contents r'" by simp_all
    then show ?thesis using pr Suc.IH [OF wf'] by simp
  qed
qed

lemma circular_fifo_new_wf: "0 \<le> fifoSize \<Longrightarrow> ring_wf (circular_fifo_new fifoSize m fill)"
  by (simp add: ring_wf_def circular_fifo_new_def idx_head_def idx_tail_def)

lemma circular_fifo_new_contents: "contents (circular_fifo_new fifoSize m fill) = []"
  by (simp add: contents_def circular_fifo_new_def)

lemma pushes_contents:
  "ring_wf r \<Longrightarrow> a_count r + int (length xs) \<le> capacity r - 1 \<Longrightarrow>
   ring_wf (pushes xs r) \<and> contents (pushes xs r) = contents r @ xs \<and>
   capacity (pushes xs r) = capacity r"
proof (induction xs arbitrary: r)
  case Nil
  then show ?case by simp
next
  case (Cons x xs)
  from Cons.prems have nf: "a_count r \<noteq> capacity r - 1" by simp
  note p = push_wf [OF Cons.prems(1) nf, of x]
  have go: "increment r (idx_tail r) \<noteq> idx_head r"
    using Cons.prems(1) nf by (simp add: ring_wf_full_iff)
  have cap: "capacity (snd (push x r)) = capacity r" by (rule push_fields [OF go])
  have "a_count (snd (push x r)) + int (length xs) \<le> capacity (snd (push x r)) - 1"
    using Cons.prems(2) p(4) cap by simp
  from Cons.IH [OF p(2) this] show ?case using p(3) cap by simp
qed

subsection \<open>Preempt puts an element at the head of the line\<close>

text \<open>
  C3. A ring that satisfies its invariant and is not full accepts \<open>preempt x\<close>, and
  the pops that follow return \<open>x\<close> first and then the elements the ring held, in the
  order they were in (\<open>contents\<close>, which \<open>push\<close> extends at the back by
  \<open>push_wf\<close>): the first \<open>n\<close> pops return the first \<open>n\<close> elements of
  \<open>x # contents r\<close>, and no pop succeeds after these are exhausted.
\<close>

theorem preempt_head_of_line:
  assumes "ring_wf r" and "a_count r \<noteq> capacity r - 1"
  shows "fst (preempt x r) \<and> pops n item (snd (preempt x r)) = take n (x # contents r)"
  using preempt_wf [OF assms, of x] by (simp add: pops_take)

theorem preempt_head_of_line_witness:
  "ring_wf scenario_d \<and> a_count scenario_d \<noteq> capacity scenario_d - 1 \<and>
   fst (preempt 90 scenario_d) \<and>
   pops 4 0 (snd (preempt 90 scenario_d)) = [90, 65, 66, 67] \<and>
   pops 9 0 (snd (preempt 90 scenario_d)) = [90, 65, 66, 67]"
proof -
  have wf: "ring_wf scenario_d" unfolding scenario_d_def by code_simp
  have nf: "a_count scenario_d \<noteq> capacity scenario_d - 1" unfolding scenario_d_def by code_simp
  have c: "contents scenario_d = [65, 66, 67]" unfolding scenario_d_def by code_simp
  show ?thesis
    using wf nf c preempt_head_of_line [OF wf nf, of 90 4 0]
      preempt_head_of_line [OF wf nf, of 90 9 0]
    by simp
qed

section \<open>Properties of the waitable FIFO\<close>

subsection \<open>What each call changes\<close>

lemma push_total:
  assumes wf: "ring_wf r"
  shows "ring_wf (snd (push x r)) \<and> capacity (snd (push x r)) = capacity r \<and>
         a_count (snd (push x r)) = a_count r + (if fst (push x r) then 1 else 0)"
proof (cases "a_count r = capacity r - 1")
  case True
  with wf have "increment r (idx_tail r) = idx_head r" by (simp add: ring_wf_full_iff)
  then have "push x r = (False, r)" by (rule push_full)
  with wf show ?thesis by simp
next
  case False
  with wf have go: "increment r (idx_tail r) \<noteq> idx_head r" by (simp add: ring_wf_full_iff)
  show ?thesis
    using push_wf [OF wf False, of x] push_fields(3) [OF go, of x] by simp
qed

lemma preempt_total:
  assumes wf: "ring_wf r"
  shows "ring_wf (snd (preempt x r)) \<and> capacity (snd (preempt x r)) = capacity r \<and>
         a_count (snd (preempt x r)) = a_count r + (if fst (preempt x r) then 1 else 0)"
proof (cases "a_count r = capacity r - 1")
  case True
  with wf have "decrement r (idx_head r) = idx_tail r" by (simp add: ring_wf_full_iff)
  then have "preempt x r = (False, r)" by (rule preempt_full)
  with wf show ?thesis by simp
next
  case False
  with wf have go: "decrement r (idx_head r) \<noteq> idx_tail r" by (simp add: ring_wf_full_iff)
  show ?thesis
    using preempt_wf [OF wf False, of x] preempt_fields(3) [OF go, of x] by simp
qed

lemma pop_total:
  assumes wf: "ring_wf r"
  shows "ring_wf (snd (snd (pop item r))) \<and>
         capacity (snd (snd (pop item r))) = capacity r \<and>
         a_count (snd (snd (pop item r))) = a_count r - (if fst (pop item r) then 1 else 0)"
proof (cases "a_count r = 0")
  case True
  then have "pop item r = (False, item, r)" using wf by (rule pop_wf_empty [rotated])
  with wf show ?thesis by simp
next
  case False
  with wf have go: "idx_head r \<noteq> idx_tail r" by (simp add: ring_wf_empty_iff)
  show ?thesis
    using pop_wf [OF wf False, of item] pop_fields(4) [OF go, of item] by simp
qed

lemma setWaterMarkHandler_total:
  "ring_wf (setWaterMarkHandler h hh l lh r) = ring_wf r \<and>
   capacity (setWaterMarkHandler h hh l lh r) = capacity r \<and>
   a_count (setWaterMarkHandler h hh l lh r) = a_count r"
  by (simp add: setWaterMarkHandler_def ring_wf_def idx_head_def idx_tail_def)

lemma signal_frame:
  "elements (signalRead f) = elements f" "maxPackets (signalRead f) = maxPackets f"
  "flowEnabled (signalRead f) = flowEnabled f" "hasBeenRead (signalRead f) = hasBeenRead f"
  "elements (signalWrite f) = elements f" "maxPackets (signalWrite f) = maxPackets f"
  "flowEnabled (signalWrite f) = flowEnabled f" "hasBeenRead (signalWrite f) = hasBeenRead f"
  "writeSem (signalRead f) = writeSem f" "readSem (signalWrite f) = readSem f"
  "(readSem (signalRead f) = None) = (readSem f = None)"
  by (simp_all add: signalRead_def signalWrite_def split: option.splits)

lemma fifo_read_frame:
  "elements (snd (snd (fifo_read dflt f))) = snd (snd (pop dflt (elements f)))"
  "maxPackets (snd (snd (fifo_read dflt f))) = maxPackets f"
  "flowEnabled (snd (snd (fifo_read dflt f))) = flowEnabled f"
  "hasBeenRead (snd (snd (fifo_read dflt f)))"
  "(readSem (snd (snd (fifo_read dflt f))) = None) = (readSem f = None)"
  "fst (fifo_read dflt f) = 1"
  "fst (snd (fifo_read dflt f)) = fst (snd (pop dflt (elements f)))"
  "writeSem (snd (snd (fifo_read dflt f))) = Suc (writeSem f)"
  by (simp_all add: fifo_read_def popPacket_def signal_frame signalWrite_def Post_def
      split: prod.splits)

lemma fifo_write_frame:
  "elements (snd (fifo_write x f)) =
     (if flowEnabled f = 0 then elements f else snd (push x (elements f)))"
  "maxPackets (snd (fifo_write x f)) = maxPackets f"
  "flowEnabled (snd (fifo_write x f)) = flowEnabled f"
  "hasBeenRead (snd (fifo_write x f)) = hasBeenRead f"
  "(readSem (snd (fifo_write x f)) = None) = (readSem f = None)"
  "fst (fifo_write x f) =
     (if flowEnabled f = 0 then SPR_FLOWDISABLED
      else if fst (push x (elements f)) then SPR_OK else SPR_FIFOFULL)"
  by (simp_all add: fifo_write_def pushPacket_def signal_frame split: prod.splits bool.splits)

lemma fifo_preempt_frame:
  "elements (snd (fifo_preempt x f)) =
     (if flowEnabled f = 0 then elements f else snd (preempt x (elements f)))"
  "maxPackets (snd (fifo_preempt x f)) = maxPackets f"
  "flowEnabled (snd (fifo_preempt x f)) = flowEnabled f"
  "hasBeenRead (snd (fifo_preempt x f)) = hasBeenRead f"
  "(readSem (snd (fifo_preempt x f)) = None) = (readSem f = None)"
  "fst (fifo_preempt x f) =
     (if flowEnabled f = 0 then SPR_FLOWDISABLED
      else if fst (preempt x (elements f)) then SPR_OK else SPR_FIFOFULL)"
  by (simp_all add: fifo_preempt_def signal_frame split: prod.splits bool.splits)

lemma waitForReadData_frame:
  assumes "waitForReadData f = Some (rc, f')"
  shows "elements f' = elements f" "maxPackets f' = maxPackets f"
    "flowEnabled f' = flowEnabled f" "hasBeenRead f' = hasBeenRead f"
    "(readSem f' = None) = (readSem f = None)"
  using assms by (auto simp: waitForReadData_def split: option.splits)

lemma tryWaitForReadData_frame:
  "elements (snd (tryWaitForReadData f)) = elements f"
  "maxPackets (snd (tryWaitForReadData f)) = maxPackets f"
  "flowEnabled (snd (tryWaitForReadData f)) = flowEnabled f"
  "hasBeenRead (snd (tryWaitForReadData f)) = hasBeenRead f"
  "(readSem (snd (tryWaitForReadData f)) = None) = (readSem f = None)"
  by (simp_all add: tryWaitForReadData_def split: option.splits)

lemma tryWaitForWriteData_frame:
  "elements (snd (tryWaitForWriteData f)) = elements f"
  "maxPackets (snd (tryWaitForWriteData f)) = maxPackets f"
  "flowEnabled (snd (tryWaitForWriteData f)) = flowEnabled f"
  "hasBeenRead (snd (tryWaitForWriteData f)) = hasBeenRead f"
  "(readSem (snd (tryWaitForWriteData f)) = None) = (readSem f = None)"
  by (simp_all add: tryWaitForWriteData_def Let_def)

lemma waitForWriteSpace_frame:
  assumes "waitForWriteSpace f = Some (rc, f')"
  shows "elements f' = elements f" "maxPackets f' = maxPackets f"
    "flowEnabled f' = flowEnabled f" "hasBeenRead f' = hasBeenRead f"
    "(readSem f' = None) = (readSem f = None)"
  using assms
  by (auto simp: waitForWriteSpace_def waitForWriteSpace_wait_def Let_def
      split: option.splits if_splits)

lemma waitForReadDataTimed_frame:
  assumes "waitForReadDataTimed ms f = Some (rc, f')"
  shows "elements f' = elements f" "maxPackets f' = maxPackets f"
    "flowEnabled f' = flowEnabled f" "hasBeenRead f' = hasBeenRead f"
    "(readSem f' = None) = (readSem f = None)"
  using assms
  by (auto simp: waitForReadDataTimed_def waitForReadData_def split: option.splits if_splits)

lemma waitForWriteSpaceTimed_frame:
  assumes "waitForWriteSpaceTimed ms f = Some (rc, f')"
  shows "elements f' = elements f" "maxPackets f' = maxPackets f"
    "flowEnabled f' = flowEnabled f" "hasBeenRead f' = hasBeenRead f"
    "(readSem f' = None) = (readSem f = None)"
  using assms
  by (auto simp: waitForWriteSpaceTimed_def waitForWriteSpace_def waitForWriteSpace_wait_def Let_def
      split: option.splits if_splits)

lemma setFlowEnabled_frame:
  "elements (setFlowEnabled b f) = elements f"
  "maxPackets (setFlowEnabled b f) = maxPackets f"
  "hasBeenRead (setFlowEnabled b f) = hasBeenRead f"
  "(readSem (setFlowEnabled b f) = None) = (readSem f = None)"
  by (simp_all add: setFlowEnabled_def unstick_write_post_def unstick_write_reset_def
      unstick_read_post_def unstick_read_reset_def Let_def split: option.splits)

lemma fifo_setWaterMarkHandler_frame:
  "elements (fifo_setWaterMarkHandler h hh l lh f) = setWaterMarkHandler h hh l lh (elements f)"
  "maxPackets (fifo_setWaterMarkHandler h hh l lh f) = maxPackets f"
  "flowEnabled (fifo_setWaterMarkHandler h hh l lh f) = flowEnabled f"
  "hasBeenRead (fifo_setWaterMarkHandler h hh l lh f) = hasBeenRead f"
  "readSem (fifo_setWaterMarkHandler h hh l lh f) = readSem f"
  by (simp_all add: fifo_setWaterMarkHandler_def)

lemma sint_nonneg_unat:
  assumes "0 \<le> sint (w::32 word)"
  shows "sint w = int (unat w)"
proof (cases "uint w < 2 ^ 31")
  case True
  have "sint w = signed_take_bit 31 (uint w)" by (simp add: sint_uint)
  also have "\<dots> = uint w"
  proof (rule signed_take_bit_int_eq_self)
    show "- (2 ^ 31) \<le> uint w" by (rule order_trans [of _ 0]) simp_all
    show "uint w < 2 ^ 31" by (rule True)
  qed
  finally show ?thesis by simp
next
  case False
  have "sint w = signed_take_bit 31 (uint w)" by (simp add: sint_uint)
  also have "\<dots> \<le> uint w - 2 ^ Suc 31"
    using False by (intro signed_take_bit_int_less_eq) simp
  also have "\<dots> < 0"
    using uint_lt2p [of w] by simp
  finally show ?thesis using assms by simp
qed

lemma SPR_codes: "SPR_OK \<noteq> SPR_FLOWDISABLED" "SPR_OK \<noteq> SPR_FIFOFULL"
  "SPR_FLOWDISABLED \<noteq> SPR_OK" "SPR_FIFOFULL \<noteq> SPR_OK"
  by (simp_all add: SPR_OK_def SPR_FLOWDISABLED_def SPR_FIFOFULL_def)

lemma fifo_new_wf:
  "0 \<le> sint maxP \<Longrightarrow> fifo_wf (sproqet_generic_waitable_fifo_new maxP hm rs m ud tg cu fill)"
  by (simp add: fifo_wf_def sproqet_generic_waitable_fifo_new_def Let_def setHeadMonitor_def
      circular_fifo_new_def ring_wf_def idx_head_def idx_tail_def)

lemma fifo_new_fields:
  "maxPackets (sproqet_generic_waitable_fifo_new maxP hm rs m ud tg cu fill) = sint maxP"
  "fifo_storedCount (sproqet_generic_waitable_fifo_new maxP hm rs m ud tg cu fill) = 0"
  "hasBeenRead (sproqet_generic_waitable_fifo_new maxP hm rs m ud tg cu fill) = False"
  "flowEnabled (sproqet_generic_waitable_fifo_new maxP hm rs m ud tg cu fill) = 0"
  "(readSem (sproqet_generic_waitable_fifo_new maxP hm rs m ud tg cu fill) = None) = (\<not> rs)"
  by (simp_all add: sproqet_generic_waitable_fifo_new_def Let_def setHeadMonitor_def
      circular_fifo_new_def fifo_storedCount_def storedCount_def)

lemma step_count:
  assumes wf: "fifo_wf f" and st: "step dflt c f = Some (rc, f')"
  shows "fifo_wf f' \<and> maxPackets f' = maxPackets f \<and>
         fifo_storedCount f' = fifo_storedCount f + moved (outcome_of dflt c f)"
proof (cases c)
  case Op_read
  with st have f': "f' = snd (snd (fifo_read dflt f))" by (simp split: prod.splits)
  from wf have "ring_wf (elements f)" by (simp add: fifo_wf_def)
  from pop_total [OF this, of dflt] wf show ?thesis
    by (simp add: f' Op_read fifo_read_frame fifo_wf_def fifo_storedCount_def storedCount_def)
next
  case (Op_write x)
  with st have f': "f' = snd (fifo_write x f)" by simp
  from wf have "ring_wf (elements f)" by (simp add: fifo_wf_def)
  from push_total [OF this, of x] wf show ?thesis
    by (simp add: f' Op_write fifo_write_frame fifo_wf_def fifo_storedCount_def storedCount_def
        SPR_codes)
next
  case (Op_preempt x)
  with st have f': "f' = snd (fifo_preempt x f)" by simp
  from wf have "ring_wf (elements f)" by (simp add: fifo_wf_def)
  from preempt_total [OF this, of x] wf show ?thesis
    by (simp add: f' Op_preempt fifo_preempt_frame fifo_wf_def fifo_storedCount_def
        storedCount_def SPR_codes)
next
  case Op_waitForReadData
  with st wf show ?thesis
    by (simp add: waitForReadData_frame fifo_wf_def fifo_storedCount_def)
next
  case Op_tryWaitForReadData
  with st have "f' = snd (tryWaitForReadData f)" by simp
  with wf show ?thesis
    by (simp add: Op_tryWaitForReadData tryWaitForReadData_frame fifo_wf_def fifo_storedCount_def)
next
  case Op_tryWaitForWriteData
  with st have "f' = snd (tryWaitForWriteData f)" by simp
  with wf show ?thesis
    by (simp add: Op_tryWaitForWriteData tryWaitForWriteData_frame fifo_wf_def
        fifo_storedCount_def)
next
  case Op_waitForWriteSpace
  with st wf show ?thesis
    by (simp add: waitForWriteSpace_frame fifo_wf_def fifo_storedCount_def)
next
  case (Op_waitForReadDataTimed ms)
  with st wf show ?thesis
    by (simp add: waitForReadDataTimed_frame fifo_wf_def fifo_storedCount_def)
next
  case (Op_waitForWriteSpaceTimed ms)
  with st wf show ?thesis
    by (simp add: waitForWriteSpaceTimed_frame fifo_wf_def fifo_storedCount_def)
next
  case (Op_setFlowEnabled b)
  with st have "f' = setFlowEnabled b f" by simp
  with wf show ?thesis
    by (simp add: Op_setFlowEnabled setFlowEnabled_frame fifo_wf_def fifo_storedCount_def)
next
  case (Op_setWaterMarkHandler h hh l lh)
  with st have "f' = fifo_setWaterMarkHandler h hh l lh f" by simp
  with wf show ?thesis
    by (simp add: Op_setWaterMarkHandler fifo_setWaterMarkHandler_frame fifo_wf_def
        fifo_storedCount_def storedCount_def setWaterMarkHandler_total)
qed

lemma run_count:
  "fifo_wf f \<Longrightarrow> run dflt cs f = Some f' \<Longrightarrow>
   fifo_wf f' \<and> maxPackets f' = maxPackets f \<and>
   fifo_storedCount f' = fifo_storedCount f + sum_list (map moved (outcomes dflt cs f))"
proof (induction cs arbitrary: f)
  case Nil
  then show ?case by simp
next
  case (Cons c cs)
  from Cons.prems(2) obtain rc f1 where st: "step dflt c f = Some (rc, f1)"
    and rest: "run dflt cs f1 = Some f'"
    by (auto split: option.splits)
  from step_count [OF Cons.prems(1) st] Cons.IH [OF _ rest] st show ?case by simp
qed

lemma sum_moved:
  "sum_list (map moved os) =
     int (count_list os Stored_by_write) + int (count_list os Stored_by_preempt)
       - int (count_list os Taken_by_read)"
proof (induction os)
  case Nil
  then show ?case by simp
next
  case (Cons a os)
  then show ?case by (cases a) simp_all
qed

lemma fifo_wf_range:
  "fifo_wf f \<Longrightarrow> 0 \<le> fifo_storedCount f \<and> fifo_storedCount f \<le> maxPackets f"
  using ring_wf_count_range [of "elements f"]
  by (simp add: fifo_wf_def fifo_storedCount_def storedCount_def)

subsection \<open>The stored count\<close>

text \<open>
  C4. For a FIFO built for \<open>maxP\<close> elements (with \<open>maxP + 1\<close>, the ring's
  capacity, in the range of \<open>int\<close>)
  and any sequence of calls that runs to its end, the stored count lies between \<open>0\<close>
  and \<open>maxP\<close> and equals the number of writes that returned \<open>SPR_OK\<close> plus the
  number of preempts that returned \<open>SPR_OK\<close> minus the number of reads whose
  \<open>pop\<close> returned true.
\<close>

theorem stored_count_bounds_and_balance:
  assumes "0 \<le> sint maxP" and "sint maxP < 2147483647"
    and "run dflt cs (sproqet_generic_waitable_fifo_new maxP hm rs m ud tg cu fill) = Some f"
  shows "0 \<le> fifo_storedCount f \<and> fifo_storedCount f \<le> int (unat maxP) \<and>
         fifo_storedCount f =
           int (count_list (outcomes dflt cs
                  (sproqet_generic_waitable_fifo_new maxP hm rs m ud tg cu fill)) Stored_by_write)
         + int (count_list (outcomes dflt cs
                  (sproqet_generic_waitable_fifo_new maxP hm rs m ud tg cu fill)) Stored_by_preempt)
         - int (count_list (outcomes dflt cs
                  (sproqet_generic_waitable_fifo_new maxP hm rs m ud tg cu fill)) Taken_by_read)"
proof -
  let ?f0 = "sproqet_generic_waitable_fifo_new maxP hm rs m ud tg cu fill"
  have wf0: "fifo_wf ?f0" using assms(1) by (rule fifo_new_wf)
  note r = run_count [OF wf0 assms(3)]
  have "sint maxP = int (unat maxP)"
    using assms(1) by (rule sint_nonneg_unat)
  with r fifo_wf_range [of f] show ?thesis
    by (simp add: fifo_new_fields sum_moved)
qed

theorem stored_count_bounds_and_balance_witness:
  "0 \<le> sint (2 :: 32 word) \<and> sint (2 :: 32 word) < 2147483647 \<and>
   (\<exists>f. run 0 scenario_calls small_fifo = Some f \<and> fifo_storedCount f = 0) \<and>
   count_list (outcomes 0 scenario_calls small_fifo) Stored_by_write = 2 \<and>
   count_list (outcomes 0 scenario_calls small_fifo) Stored_by_preempt = 1 \<and>
   count_list (outcomes 0 scenario_calls small_fifo) Taken_by_read = 3"
proof -
  have h: "0 \<le> sint (2 :: 32 word)" by simp
  have h': "sint (2 :: 32 word) < 2147483647" by simp
  have "run 0 scenario_calls small_fifo \<noteq> None"
    unfolding scenario_calls_def small_fifo_def by code_simp
  then obtain f where r: "run 0 scenario_calls small_fifo = Some f" by auto
  have w: "count_list (outcomes 0 scenario_calls small_fifo) Stored_by_write = 2"
    unfolding scenario_calls_def small_fifo_def by code_simp
  have p: "count_list (outcomes 0 scenario_calls small_fifo) Stored_by_preempt = 1"
    unfolding scenario_calls_def small_fifo_def by code_simp
  have t: "count_list (outcomes 0 scenario_calls small_fifo) Taken_by_read = 3"
    unfolding scenario_calls_def small_fifo_def by code_simp
  from stored_count_bounds_and_balance [OF h h' r [unfolded small_fifo_def]]
  have "fifo_storedCount f = 0"
    using w p t by (simp add: small_fifo_def)
  with h h' r w p t show ?thesis by blast
qed

lemma step_result:
  assumes "step dflt c f = Some (rc, f')"
  shows "(c = Op_read \<and> f' = snd (snd (fifo_read dflt f))) \<or>
         (\<exists>x. c = Op_write x \<and> f' = snd (fifo_write x f)) \<or>
         (\<exists>x. c = Op_preempt x \<and> f' = snd (fifo_preempt x f)) \<or>
         (c = Op_waitForReadData \<and> waitForReadData f = Some (rc, f')) \<or>
         (c = Op_tryWaitForReadData \<and> f' = snd (tryWaitForReadData f)) \<or>
         (c = Op_tryWaitForWriteData \<and> f' = snd (tryWaitForWriteData f)) \<or>
         (c = Op_waitForWriteSpace \<and> waitForWriteSpace f = Some (rc, f')) \<or>
         (\<exists>ms. c = Op_waitForReadDataTimed ms \<and> waitForReadDataTimed ms f = Some (rc, f')) \<or>
         (\<exists>ms. c = Op_waitForWriteSpaceTimed ms \<and> waitForWriteSpaceTimed ms f = Some (rc, f')) \<or>
         (\<exists>b. c = Op_setFlowEnabled b \<and> f' = setFlowEnabled b f) \<or>
         (\<exists>h hh l lh. c = Op_setWaterMarkHandler h hh l lh \<and>
            f' = fifo_setWaterMarkHandler h hh l lh f)"
  using assms by (cases c) (auto split: prod.splits)

lemmas fifo_frames =
  fifo_read_frame fifo_write_frame fifo_preempt_frame waitForReadData_frame
  tryWaitForReadData_frame tryWaitForWriteData_frame waitForWriteSpace_frame
  waitForReadDataTimed_frame waitForWriteSpaceTimed_frame setFlowEnabled_frame
  fifo_setWaterMarkHandler_frame

lemma step_hasBeenRead:
  assumes "step dflt c f = Some (rc, f')"
  shows "hasBeenRead f' \<longleftrightarrow> hasBeenRead f \<or> c = Op_read"
  using step_result [OF assms] by (auto simp: fifo_frames)

lemma step_readSem:
  assumes "step dflt c f = Some (rc, f')"
  shows "readSem f' = None \<longleftrightarrow> readSem f = None"
  using step_result [OF assms] by (auto simp: fifo_frames)

lemma run_hasBeenRead:
  "run dflt cs f = Some f' \<Longrightarrow> hasBeenRead f' \<longleftrightarrow> hasBeenRead f \<or> Op_read \<in> set cs"
proof (induction cs arbitrary: f)
  case Nil
  then show ?case by simp
next
  case (Cons c cs)
  from Cons.prems obtain rc f1 where st: "step dflt c f = Some (rc, f1)"
    and rest: "run dflt cs f1 = Some f'"
    by (auto split: option.splits)
  from step_hasBeenRead [OF st] Cons.IH [OF rest] show ?case by auto
qed

subsection \<open>The has-been-read latch\<close>

text \<open>
  C5, as amended. After any sequence of calls on a freshly built FIFO,
  \<open>hasBeenRead\<close> is true exactly when \<open>read\<close> was called at least once, whether
  or not that call popped an element; no call clears it.
\<close>

theorem has_been_read_iff_read_called:
  assumes "run dflt cs (sproqet_generic_waitable_fifo_new maxP hm rs m ud tg cu fill) = Some f"
  shows "hasBeenRead f \<longleftrightarrow> Op_read \<in> set cs"
  using run_hasBeenRead [OF assms] by (simp add: fifo_new_fields)

theorem has_been_read_iff_read_called_witness:
  "(\<exists>f. run 0 [Op_setFlowEnabled True, Op_write 5] fresh_fifo = Some f \<and> \<not> hasBeenRead f) \<and>
   (\<exists>f. run 0 [Op_read] fresh_fifo = Some f \<and> hasBeenRead f)"
proof -
  have "run 0 [Op_setFlowEnabled True, Op_write 5] fresh_fifo \<noteq> None"
    unfolding fresh_fifo_def by code_simp
  then obtain f where r: "run 0 [Op_setFlowEnabled True, Op_write 5] fresh_fifo = Some f" by auto
  have "run 0 [Op_read] fresh_fifo \<noteq> None"
    unfolding fresh_fifo_def by code_simp
  then obtain g where q: "run 0 [Op_read] fresh_fifo = Some g" by auto
  from has_been_read_iff_read_called [OF r [unfolded fresh_fifo_def]]
    has_been_read_iff_read_called [OF q [unfolded fresh_fifo_def]] r q
  show ?thesis by simp
qed

text \<open>
  C5 as stated fails: on a fresh FIFO the ring's \<open>pop\<close> returns false, the stored
  count stays \<open>0\<close>, and \<open>read\<close> sets \<open>hasBeenRead\<close> all the same.
\<close>

theorem has_been_read_counterexample:
  "\<not> fst (pop 0 (elements fresh_fifo)) \<and>
   fifo_storedCount (snd (snd (fifo_read 0 fresh_fifo))) = 0 \<and>
   hasBeenRead (snd (snd (fifo_read 0 fresh_fifo)))"
  unfolding fresh_fifo_def by code_simp

lemma run_readSem:
  "run dflt cs f = Some f' \<Longrightarrow> readSem f' = None \<longleftrightarrow> readSem f = None"
proof (induction cs arbitrary: f)
  case Nil
  then show ?case by simp
next
  case (Cons c cs)
  from Cons.prems obtain rc f1 where st: "step dflt c f = Some (rc, f1)"
    and rest: "run dflt cs f1 = Some f'"
    by (auto split: option.splits)
  from step_readSem [OF st] Cons.IH [OF rest] show ?case by simp
qed

subsection \<open>A FIFO without a read semaphore\<close>

text \<open>
  C6, as amended. On a FIFO built without a read semaphore, after any sequence of calls,
  \<open>waitForReadData\<close> returns \<open>SPR_FLOWDISABLED\<close>, while
  \<open>waitForReadDataTimed\<close> and \<open>tryWaitForReadData\<close> return \<open>0\<close>; none of
  them changes the FIFO.
\<close>

theorem no_read_semaphore_waits:
  assumes "run dflt cs (sproqet_generic_waitable_fifo_new maxP hm False m ud tg cu fill) = Some f"
  shows "waitForReadData f = Some (SPR_FLOWDISABLED, f) \<and>
         waitForReadDataTimed msecs f = Some (0, f) \<and>
         tryWaitForReadData f = (0, f)"
proof -
  have "readSem f = None"
    using run_readSem [OF assms] by (simp add: fifo_new_fields)
  then show ?thesis
    by (simp add: waitForReadData_def waitForReadDataTimed_def tryWaitForReadData_def)
qed

theorem no_read_semaphore_waits_witness:
  "(\<exists>f. run 0 [Op_setFlowEnabled True, Op_write 5, Op_read] no_readsem_fifo = Some f \<and>
     waitForReadData f = Some (SPR_FLOWDISABLED, f) \<and>
     waitForReadDataTimed 10 f = Some (0, f) \<and>
     tryWaitForReadData f = (0, f))"
proof -
  have "run 0 [Op_setFlowEnabled True, Op_write 5, Op_read] no_readsem_fifo \<noteq> None"
    unfolding no_readsem_fifo_def by code_simp
  then obtain f where r: "run 0 [Op_setFlowEnabled True, Op_write 5, Op_read] no_readsem_fifo = Some f"
    by auto
  from no_read_semaphore_waits [OF r [unfolded no_readsem_fifo_def], of 10] r
  show ?thesis by blast
qed

text \<open>
  C6 as stated fails: without a read semaphore \<open>tryWaitForReadData\<close> and
  \<open>waitForReadDataTimed\<close> (with a positive and with a zero timeout) return \<open>0\<close>,
  which is not \<open>SPR_FLOWDISABLED\<close>.
\<close>

theorem no_read_semaphore_counterexample:
  "fst (tryWaitForReadData no_readsem_fifo) = 0 \<and>
   map_option fst (waitForReadDataTimed 10 no_readsem_fifo) = Some 0 \<and>
   map_option fst (waitForReadDataTimed 0 no_readsem_fifo) = Some 0 \<and>
   (0 :: int) \<noteq> SPR_FLOWDISABLED"
  unfolding no_readsem_fifo_def by code_simp

lemma setFlowEnabled_False_flow: "flowEnabled (setFlowEnabled False f) = 0"
  by (simp add: setFlowEnabled_def unstick_write_post_def unstick_write_reset_def
      unstick_read_post_def unstick_read_reset_def Let_def split: option.splits)

lemma setFlowEnabled_keeps_off:
  "flowEnabled f = 0 \<Longrightarrow> flowEnabled (setFlowEnabled b f) = (if b then 1 else 0)"
  by (simp add: setFlowEnabled_def)

lemma step_flow_stays_off:
  assumes "step dflt c f = Some (rc, f')" and "c \<noteq> Op_setFlowEnabled True"
    and "flowEnabled f = 0"
  shows "flowEnabled f' = 0"
proof (cases c)
  case (Op_setFlowEnabled b)
  with assms(2) have "\<not> b" by simp
  moreover from assms(1) Op_setFlowEnabled have "f' = setFlowEnabled b f" by simp
  ultimately show ?thesis using assms(3) by (simp add: setFlowEnabled_keeps_off)
next
  case Op_read
  with assms(1) have "f' = snd (snd (fifo_read dflt f))" by (simp split: prod.splits)
  then show ?thesis using assms(3) by (simp add: fifo_read_frame)
next
  case (Op_write x)
  with assms(1) have "f' = snd (fifo_write x f)" by simp
  then show ?thesis using assms(3) by (simp add: fifo_write_frame)
next
  case (Op_preempt x)
  with assms(1) have "f' = snd (fifo_preempt x f)" by simp
  then show ?thesis using assms(3) by (simp add: fifo_preempt_frame)
next
  case Op_waitForReadData
  with assms(1) have "waitForReadData f = Some (rc, f')" by simp
  then show ?thesis using assms(3) by (simp add: waitForReadData_frame)
next
  case Op_tryWaitForReadData
  with assms(1) have "f' = snd (tryWaitForReadData f)" by simp
  then show ?thesis using assms(3) by (simp add: tryWaitForReadData_frame)
next
  case Op_tryWaitForWriteData
  with assms(1) have "f' = snd (tryWaitForWriteData f)" by simp
  then show ?thesis using assms(3) by (simp add: tryWaitForWriteData_frame)
next
  case Op_waitForWriteSpace
  with assms(1) have "waitForWriteSpace f = Some (rc, f')" by simp
  then show ?thesis using assms(3) by (simp add: waitForWriteSpace_frame)
next
  case (Op_waitForReadDataTimed ms)
  with assms(1) have "waitForReadDataTimed ms f = Some (rc, f')" by simp
  then show ?thesis using assms(3) by (simp add: waitForReadDataTimed_frame)
next
  case (Op_waitForWriteSpaceTimed ms)
  with assms(1) have "waitForWriteSpaceTimed ms f = Some (rc, f')" by simp
  then show ?thesis using assms(3) by (simp add: waitForWriteSpaceTimed_frame)
next
  case (Op_setWaterMarkHandler h hh l lh)
  with assms(1) have "f' = fifo_setWaterMarkHandler h hh l lh f" by simp
  then show ?thesis using assms(3) by (simp add: fifo_setWaterMarkHandler_frame)
qed

lemma run_flow_stays_off:
  "run dflt cs f = Some f' \<Longrightarrow> Op_setFlowEnabled True \<notin> set cs \<Longrightarrow> flowEnabled f = 0 \<Longrightarrow>
   flowEnabled f' = 0"
proof (induction cs arbitrary: f)
  case Nil
  then show ?case by simp
next
  case (Cons c cs)
  from Cons.prems(1) obtain rc f1 where st: "step dflt c f = Some (rc, f1)"
    and rest: "run dflt cs f1 = Some f'"
    by (auto split: option.splits)
  from Cons.prems(2) have ne: "c \<noteq> Op_setFlowEnabled True" and nin: "Op_setFlowEnabled True \<notin> set cs"
    by auto
  from step_flow_stays_off [OF st ne Cons.prems(3)] have "flowEnabled f1 = 0" .
  from Cons.IH [OF rest nin this] show ?case .
qed

subsection \<open>Flow control\<close>

lemma Reset_zero: "Reset s = 0"
proof (induction s rule: less_induct)
  case (less s)
  show ?case
  proof (cases s)
    case 0
    then show ?thesis by (subst Reset.simps) (simp add: TryWait_def SEM_NOT_ACQUIRED_def)
  next
    case (Suc n)
    then have "Reset s = Reset n" by (subst Reset.simps) (simp add: TryWait_def)
    also have "\<dots> = 0" using Suc by (intro less.IH) simp
    finally show ?thesis .
  qed
qed

lemma waitForWriteSpace_wait_flow_off:
  assumes "flowEnabled g = 0" and "0 < writeSem g"
  shows "waitForWriteSpace_wait g = Some (SPR_FLOWDISABLED, g\<lparr>writeSem := writeSem g - 1\<rparr>)"
  using assms by (simp add: waitForWriteSpace_wait_def Wait_def)

lemma setFlowEnabled_False_on:
  assumes "flowEnabled h = 1"
  shows "setFlowEnabled False h =
           unstick_read_reset (storedCount (elements h))
             (unstick_read_post (storedCount (elements h))
                (unstick_write_reset (storedCount (elements h)) (capacity (elements h))
                   (unstick_write_post (storedCount (elements h)) (capacity (elements h))
                      (h\<lparr>flowEnabled := 0\<rparr>))))"
  using assms by (simp add: setFlowEnabled_def Let_def)

lemma disable_wakes_parked_writer:
  assumes "flowEnabled h = 1" and "writeSem h = 0"
    and "storedCount (elements h) = capacity (elements h) - 1"
  shows "disable_waking_writer h = Some (SPR_FLOWDISABLED, setFlowEnabled False h)"
proof -
  let ?p = "storedCount (elements h)" and ?c = "capacity (elements h)"
  let ?g = "unstick_write_post ?p ?c (h\<lparr>flowEnabled := 0\<rparr>)"
  have g: "?g = h\<lparr>flowEnabled := 0, writeSem := Suc 0\<rparr>"
    using assms(2,3) by (simp add: unstick_write_post_def Post_def)
  have w: "waitForWriteSpace_wait ?g = Some (SPR_FLOWDISABLED, h\<lparr>flowEnabled := 0, writeSem := 0\<rparr>)"
    unfolding g by (simp add: waitForWriteSpace_wait_def Wait_def)
  have r1: "unstick_write_reset ?p ?c (h\<lparr>flowEnabled := 0, writeSem := 0\<rparr>)
      = h\<lparr>flowEnabled := 0, writeSem := 0\<rparr>"
    using assms(3) unfolding unstick_write_reset_def Reset_zero by simp
  have r2: "unstick_write_reset ?p ?c ?g = h\<lparr>flowEnabled := 0, writeSem := 0\<rparr>"
    using assms(3) unfolding g unstick_write_reset_def Reset_zero by simp
  show ?thesis
    unfolding setFlowEnabled_False_on [OF assms(1)] r2
    by (simp add: disable_waking_writer_def Let_def w r1)
qed

lemma disable_wakes_parked_reader:
  assumes "flowEnabled k = 1" and "readSem k = Some 0" and "storedCount (elements k) = 0"
  shows "disable_waking_reader k = Some (SPR_OK, setFlowEnabled False k)"
proof -
  let ?p = "storedCount (elements k)" and ?c = "capacity (elements k)"
  let ?w = "unstick_write_reset ?p ?c (unstick_write_post ?p ?c (k\<lparr>flowEnabled := 0\<rparr>))"
  have rs: "readSem ?w = Some 0"
    using assms(2) by (simp add: unstick_write_reset_def unstick_write_post_def)
  have g: "unstick_read_post ?p ?w = ?w\<lparr>readSem := Some (Suc 0)\<rparr>"
    using rs assms(3) by (simp add: unstick_read_post_def Post_def)
  have w: "waitForReadData (?w\<lparr>readSem := Some (Suc 0)\<rparr>) = Some (SPR_OK, ?w\<lparr>readSem := Some 0\<rparr>)"
    by (simp add: waitForReadData_def Wait_def SPR_OK_def)
  have r1: "unstick_read_reset ?p (?w\<lparr>readSem := Some 0\<rparr>) = ?w\<lparr>readSem := Some 0\<rparr>"
    using assms(3) unfolding unstick_read_reset_def Reset_zero by simp
  have r2: "unstick_read_reset ?p (?w\<lparr>readSem := Some (Suc 0)\<rparr>) = ?w\<lparr>readSem := Some 0\<rparr>"
    using assms(3) unfolding unstick_read_reset_def Reset_zero by simp
  have d: "disable_waking_reader k = Some (SPR_OK, ?w\<lparr>readSem := Some 0\<rparr>)"
    by (simp add: disable_waking_reader_def Let_def g w r1)
  have e: "setFlowEnabled False k = ?w\<lparr>readSem := Some 0\<rparr>"
    unfolding setFlowEnabled_False_on [OF assms(1)] g r2 ..
  show ?thesis unfolding d e ..
qed

text \<open>
  C2, as amended. After \<open>setFlowEnabled False\<close>, and after any further calls none of
  which is \<open>setFlowEnabled True\<close>, \<open>write\<close>, \<open>preempt\<close> and
  \<open>waitForWriteSpace\<close> return \<open>SPR_FLOWDISABLED\<close> and leave the FIFO as it is.
  \<open>waitForReadData\<close> does not read the flow flag: it returns
  \<open>SPR_FLOWDISABLED\<close> when the FIFO has no read semaphore, and otherwise returns
  \<open>0\<close> once the read semaphore's count is positive (and waits while it is zero).

  Waiters. A thread parked in \<open>waitForWriteSpace\<close> that gets a permit while flow is
  off reads the flow flag again and returns \<open>SPR_FLOWDISABLED\<close>. When
  \<open>setFlowEnabled False\<close> switches flow off on a full ring, its post of the write
  semaphore gives a thread parked in \<open>waitForWriteSpace\<close> that permit: the thread
  wakes and returns \<open>SPR_FLOWDISABLED\<close>, and the FIFO ends as
  \<open>setFlowEnabled False\<close> alone leaves it. When it switches flow off on an empty ring
  with a read semaphore, its post wakes a thread parked in \<open>waitForReadData\<close>, which
  returns \<open>0\<close>, the result of the semaphore's wait.
\<close>

theorem flow_disabled_refuses_writers:
  assumes "run dflt cs (setFlowEnabled False f) = Some f'"
    and "Op_setFlowEnabled True \<notin> set cs"
  shows "fifo_write x f' = (SPR_FLOWDISABLED, f') \<and>
         fifo_preempt x f' = (SPR_FLOWDISABLED, f') \<and>
         waitForWriteSpace f' = Some (SPR_FLOWDISABLED, f') \<and>
         waitForReadData f' =
           (case readSem f' of
              None \<Rightarrow> Some (SPR_FLOWDISABLED, f')
            | Some s \<Rightarrow> if 0 < s then Some (SPR_OK, f'\<lparr>readSem := Some (s - 1)\<rparr>) else None) \<and>
         (0 < writeSem f' \<longrightarrow>
            waitForWriteSpace_wait f' =
              Some (SPR_FLOWDISABLED, f'\<lparr>writeSem := writeSem f' - 1\<rparr>)) \<and>
         (flowEnabled h = 1 \<and> writeSem h = 0 \<and>
          storedCount (elements h) = capacity (elements h) - 1 \<longrightarrow>
            disable_waking_writer h = Some (SPR_FLOWDISABLED, setFlowEnabled False h)) \<and>
         (flowEnabled k = 1 \<and> readSem k = Some 0 \<and> storedCount (elements k) = 0 \<longrightarrow>
            disable_waking_reader k = Some (SPR_OK, setFlowEnabled False k))"
proof -
  have off: "flowEnabled f' = 0"
    using run_flow_stays_off [OF assms setFlowEnabled_False_flow] .
  have calls: "fifo_write x f' = (SPR_FLOWDISABLED, f') \<and>
         fifo_preempt x f' = (SPR_FLOWDISABLED, f') \<and>
         waitForWriteSpace f' = Some (SPR_FLOWDISABLED, f') \<and>
         waitForReadData f' =
           (case readSem f' of
              None \<Rightarrow> Some (SPR_FLOWDISABLED, f')
            | Some s \<Rightarrow> if 0 < s then Some (SPR_OK, f'\<lparr>readSem := Some (s - 1)\<rparr>) else None)"
    using off
    by (simp add: fifo_write_def fifo_preempt_def waitForWriteSpace_def waitForReadData_def
        Wait_def SPR_OK_def split: option.splits)
  have woken: "0 < writeSem f' \<longrightarrow>
      waitForWriteSpace_wait f' = Some (SPR_FLOWDISABLED, f'\<lparr>writeSem := writeSem f' - 1\<rparr>)"
    using waitForWriteSpace_wait_flow_off [OF off] by blast
  have writer: "flowEnabled h = 1 \<and> writeSem h = 0 \<and>
      storedCount (elements h) = capacity (elements h) - 1 \<longrightarrow>
        disable_waking_writer h = Some (SPR_FLOWDISABLED, setFlowEnabled False h)"
    using disable_wakes_parked_writer [of h] by blast
  have reader: "flowEnabled k = 1 \<and> readSem k = Some 0 \<and> storedCount (elements k) = 0 \<longrightarrow>
      disable_waking_reader k = Some (SPR_OK, setFlowEnabled False k)"
    using disable_wakes_parked_reader [of k] by blast
  from calls woken writer reader show ?thesis by blast
qed

theorem flow_disabled_refuses_writers_witness:
  "Op_setFlowEnabled True \<notin> set [Op_tryWaitForReadData, Op_read :: nat fifo_op] \<and>
   (\<exists>f'. run 0 [Op_tryWaitForReadData, Op_read]
            (setFlowEnabled False (snd (fifo_write 7 (setFlowEnabled True fresh_fifo)))) = Some f' \<and>
      fifo_write 3 f' = (SPR_FLOWDISABLED, f') \<and>
      fifo_preempt 3 f' = (SPR_FLOWDISABLED, f') \<and>
      waitForWriteSpace f' = Some (SPR_FLOWDISABLED, f') \<and>
      waitForReadData f' = None \<and>
      0 < writeSem f' \<and>
      waitForWriteSpace_wait f' = Some (SPR_FLOWDISABLED, f'\<lparr>writeSem := writeSem f' - 1\<rparr>)) \<and>
   flowEnabled parked_writer_fifo = 1 \<and> writeSem parked_writer_fifo = 0 \<and>
   storedCount (elements parked_writer_fifo) = capacity (elements parked_writer_fifo) - 1 \<and>
   disable_waking_writer parked_writer_fifo
     = Some (SPR_FLOWDISABLED, setFlowEnabled False parked_writer_fifo) \<and>
   flowEnabled parked_reader_fifo = 1 \<and> readSem parked_reader_fifo = Some 0 \<and>
   storedCount (elements parked_reader_fifo) = 0 \<and>
   disable_waking_reader parked_reader_fifo = Some (SPR_OK, setFlowEnabled False parked_reader_fifo)"
proof -
  let ?g = "snd (fifo_write 7 (setFlowEnabled True fresh_fifo))"
  have n: "Op_setFlowEnabled True \<notin> set [Op_tryWaitForReadData, Op_read :: nat fifo_op]" by simp
  have "run 0 [Op_tryWaitForReadData, Op_read] (setFlowEnabled False ?g) \<noteq> None"
    unfolding fresh_fifo_def by code_simp
  then obtain f' where r: "run 0 [Op_tryWaitForReadData, Op_read] (setFlowEnabled False ?g) = Some f'"
    by auto
  have "map_option readSem (run 0 [Op_tryWaitForReadData, Op_read] (setFlowEnabled False ?g))
      = Some (Some 0)"
    unfolding fresh_fifo_def by code_simp
  with r have s: "readSem f' = Some 0" by simp
  have "map_option writeSem (run 0 [Op_tryWaitForReadData, Op_read] (setFlowEnabled False ?g))
      = Some 5"
    unfolding fresh_fifo_def by code_simp
  with r have ws: "0 < writeSem f'" by simp
  have w1: "flowEnabled parked_writer_fifo = 1"
    unfolding parked_writer_fifo_def small_fifo_def by code_simp
  have w2: "writeSem parked_writer_fifo = 0"
    unfolding parked_writer_fifo_def small_fifo_def by code_simp
  have w3: "storedCount (elements parked_writer_fifo) = capacity (elements parked_writer_fifo) - 1"
    unfolding parked_writer_fifo_def small_fifo_def by code_simp
  have r1: "flowEnabled parked_reader_fifo = 1"
    unfolding parked_reader_fifo_def fresh_fifo_def by code_simp
  have r2: "readSem parked_reader_fifo = Some 0"
    unfolding parked_reader_fifo_def fresh_fifo_def by code_simp
  have r3: "storedCount (elements parked_reader_fifo) = 0"
    unfolding parked_reader_fifo_def fresh_fifo_def by code_simp
  note t = flow_disabled_refuses_writers [OF r n, of 3 parked_writer_fifo parked_reader_fifo]
  have a: "fifo_write 3 f' = (SPR_FLOWDISABLED, f')" using t by blast
  have b: "fifo_preempt 3 f' = (SPR_FLOWDISABLED, f')" using t by blast
  have c: "waitForWriteSpace f' = Some (SPR_FLOWDISABLED, f')" using t by blast
  have d0: "waitForReadData f' =
      (case readSem f' of
         None \<Rightarrow> Some (SPR_FLOWDISABLED, f')
       | Some s \<Rightarrow> if 0 < s then Some (SPR_OK, f'\<lparr>readSem := Some (s - 1)\<rparr>) else None)"
    using t by blast
  have d: "waitForReadData f' = None" unfolding d0 s by simp
  have e: "waitForWriteSpace_wait f' = Some (SPR_FLOWDISABLED, f'\<lparr>writeSem := writeSem f' - 1\<rparr>)"
    using t ws by blast
  have w4: "disable_waking_writer parked_writer_fifo
      = Some (SPR_FLOWDISABLED, setFlowEnabled False parked_writer_fifo)"
    using t w1 w2 w3 by blast
  have r4: "disable_waking_reader parked_reader_fifo
      = Some (SPR_OK, setFlowEnabled False parked_reader_fifo)"
    using t r1 r2 r3 by blast
  from r a b c d ws e
  have ex: "\<exists>f'. run 0 [Op_tryWaitForReadData, Op_read] (setFlowEnabled False ?g) = Some f' \<and>
      fifo_write 3 f' = (SPR_FLOWDISABLED, f') \<and>
      fifo_preempt 3 f' = (SPR_FLOWDISABLED, f') \<and>
      waitForWriteSpace f' = Some (SPR_FLOWDISABLED, f') \<and>
      waitForReadData f' = None \<and>
      0 < writeSem f' \<and>
      waitForWriteSpace_wait f' = Some (SPR_FLOWDISABLED, f'\<lparr>writeSem := writeSem f' - 1\<rparr>)"
    by blast
  from n ex w1 w2 w3 w4 r1 r2 r3 r4 show ?thesis by blast
qed

text \<open>
  C2 as stated fails in three ways. On a FIFO that holds one element and whose flow has
  been switched off, \<open>waitForReadData\<close> returns \<open>SPR_OK\<close>. A thread parked in
  \<open>waitForReadData\<close> on an empty ring that is woken by \<open>setFlowEnabled False\<close>
  returns \<open>SPR_OK\<close>. A thread parked in \<open>waitForWriteSpace\<close> on a ring that is not
  full (the write permits were taken without a write) is not woken: nothing is posted,
  and it finds no permit during or after \<open>setFlowEnabled False\<close>.
\<close>

theorem flow_disabled_counterexample:
  "flowEnabled flow_off_fifo = 0 \<and>
   map_option fst (waitForReadData flow_off_fifo) = Some SPR_OK \<and>
   SPR_OK \<noteq> SPR_FLOWDISABLED \<and>
   flowEnabled parked_reader_fifo = 1 \<and> readSem parked_reader_fifo = Some 0 \<and>
   map_option fst (disable_waking_reader parked_reader_fifo) = Some SPR_OK \<and>
   flowEnabled reserved_fifo = 1 \<and> writeSem reserved_fifo = 0 \<and>
   map_option fst (disable_waking_writer reserved_fifo) = None \<and>
   map_option fst (waitForWriteSpace_wait (setFlowEnabled False reserved_fifo)) = None"
proof -
  have c1: "flowEnabled flow_off_fifo = 0"
    unfolding flow_off_fifo_def fresh_fifo_def by code_simp
  have c2: "map_option fst (waitForReadData flow_off_fifo) = Some SPR_OK"
    unfolding flow_off_fifo_def fresh_fifo_def by code_simp
  have c3: "SPR_OK \<noteq> SPR_FLOWDISABLED" by (simp add: SPR_OK_def SPR_FLOWDISABLED_def)
  have c4: "flowEnabled parked_reader_fifo = 1"
    unfolding parked_reader_fifo_def fresh_fifo_def by code_simp
  have c5: "readSem parked_reader_fifo = Some 0"
    unfolding parked_reader_fifo_def fresh_fifo_def by code_simp
  have c6: "map_option fst (disable_waking_reader parked_reader_fifo) = Some SPR_OK"
    unfolding parked_reader_fifo_def fresh_fifo_def by code_simp
  have c7: "flowEnabled reserved_fifo = 1"
    unfolding reserved_fifo_def small_fifo_def by code_simp
  have c8: "writeSem reserved_fifo = 0"
    unfolding reserved_fifo_def small_fifo_def by code_simp
  have c9: "map_option fst (disable_waking_writer reserved_fifo) = None"
    unfolding reserved_fifo_def small_fifo_def by code_simp
  have c10: "map_option fst (waitForWriteSpace_wait (setFlowEnabled False reserved_fifo)) = None"
    unfolding reserved_fifo_def small_fifo_def by code_simp
  from c1 c2 c3 c4 c5 c6 c7 c8 c9 c10 show ?thesis by blast
qed

subsection \<open>Reading an empty FIFO\<close>

text \<open>
  C10. When the ring holds no element, \<open>read\<close> posts the write semaphore, sets
  \<open>hasBeenRead\<close>, stores the default value into its argument and returns \<open>1\<close>,
  changing nothing else; for the command FIFO, \<open>ff_cmd_fifo_read\<close> returns
  \<open>FF_CMD_FIFO_OK\<close> and stores the null pointer.
\<close>

theorem read_of_empty_fifo:
  assumes "fifo_wf f" and "fifo_storedCount f = 0"
    and "fifo_wf g" and "fifo_storedCount g = 0"
  shows "fifo_read dflt f = (1, dflt, f\<lparr>writeSem := Suc (writeSem f), hasBeenRead := True\<rparr>) \<and>
         ff_cmd_fifo_read (Some g) (Some c) =
           (FF_CMD_FIFO_OK, Some None, Some (g\<lparr>writeSem := Suc (writeSem g), hasBeenRead := True\<rparr>))"
proof -
  have e: "\<And>d. pop d (elements f) = (False, d, elements f)"
    using assms(1,2) by (intro pop_wf_empty) (simp_all add: fifo_wf_def fifo_storedCount_def storedCount_def)
  have e': "\<And>d. pop d (elements g) = (False, d, elements g)"
    using assms(3,4) by (intro pop_wf_empty) (simp_all add: fifo_wf_def fifo_storedCount_def storedCount_def)
  have rd: "fifo_read dflt f = (1, dflt, f\<lparr>writeSem := Suc (writeSem f), hasBeenRead := True\<rparr>)"
    by (simp add: fifo_read_def popPacket_def e signalWrite_def Post_def)
  have rd': "fifo_read None g = (1, None, g\<lparr>writeSem := Suc (writeSem g), hasBeenRead := True\<rparr>)"
    by (simp add: fifo_read_def popPacket_def e' signalWrite_def Post_def)
  show ?thesis using rd rd' by (simp add: ff_cmd_fifo_read_def)
qed

theorem read_of_empty_fifo_witness:
  "fifo_wf fresh_fifo \<and> fifo_storedCount fresh_fifo = 0 \<and>
   fifo_wf (ff_cmd_fifo_create 4 FF_CMD_FIFO_BLOCKING None) \<and>
   fifo_storedCount (ff_cmd_fifo_create 4 FF_CMD_FIFO_BLOCKING None) = 0 \<and>
   fifo_read 0 fresh_fifo =
     (1, 0, fresh_fifo\<lparr>writeSem := Suc (writeSem fresh_fifo), hasBeenRead := True\<rparr>) \<and>
   fst (ff_cmd_fifo_read (Some (ff_cmd_fifo_create 4 FF_CMD_FIFO_BLOCKING None)) (Some (Some 1)))
     = FF_CMD_FIFO_OK \<and>
   fst (snd (ff_cmd_fifo_read (Some (ff_cmd_fifo_create 4 FF_CMD_FIFO_BLOCKING None)) (Some (Some 1))))
     = Some None"
proof -
  have a: "fifo_wf fresh_fifo" unfolding fresh_fifo_def by (rule fifo_new_wf) simp
  have b: "fifo_storedCount fresh_fifo = 0" unfolding fresh_fifo_def by (rule fifo_new_fields)
  have c: "fifo_wf (ff_cmd_fifo_create 4 FF_CMD_FIFO_BLOCKING None)"
    unfolding ff_cmd_fifo_create_def by (rule fifo_new_wf) simp
  have d: "fifo_storedCount (ff_cmd_fifo_create 4 FF_CMD_FIFO_BLOCKING None) = 0"
    unfolding ff_cmd_fifo_create_def by (rule fifo_new_fields)
  from read_of_empty_fifo [OF a b c d, of 0 "Some 1"] a b c d show ?thesis by simp
qed

lemma push_high_watermark:
  assumes "increment r (idx_tail r) \<noteq> idx_head r"
  shows "count_list (fired (snd (push x r))) HighWaterMarkHandler =
         count_list (fired r) HighWaterMarkHandler +
         (if highWaterMarkHandler r \<and> a_count r = highWaterMark r + 1 then 1 else 0)"
  using assms
  by (cases "mode r"; simp add: push_def Let_def call_def idx_head_def idx_tail_def)

lemma pop_low_watermark:
  assumes "idx_head r \<noteq> idx_tail r"
  shows "count_list (fired (snd (snd (pop item r)))) LowWaterMarkHandler =
         count_list (fired r) LowWaterMarkHandler +
         (if lowWaterMarkHandler r \<and>
             (if mode r = Circular_Fifo_Mode_Single_Producer_Lockless
              then a_count r = lowWaterMark r - 1
              else a_count r - 1 = lowWaterMark r - 1)
          then 1 else 0)"
  using assms
  by (cases "mode r"; simp add: pop_def Let_def call_def idx_head_def idx_tail_def)

subsection \<open>Watermark handlers\<close>

text \<open>
  C1. The claim says that the high-watermark handler is invoked by the push after which
  the count is \<open>high + 1\<close>, and the low-watermark handler by the pop after which the
  count is \<open>low - 1\<close>. The code compares the count before the push with
  \<open>high + 1\<close> (lemma \<open>push_high_watermark\<close>), and in the lockless branch of
  \<open>pop\<close> the count before the pop with \<open>low - 1\<close> (lemma
  \<open>pop_low_watermark\<close>); only the blocking branch of \<open>pop\<close> compares the count
  after the pop. Evaluated on a ring for four elements with \<open>high = 1\<close> and
  \<open>low = 2\<close>, in either mode: the second push leaves two elements and invokes
  nothing, the third push invokes the high handler; in the lockless mode the pop that
  leaves one element invokes nothing and the pop that leaves none invokes the low
  handler, while in the blocking mode the pop that leaves one element invokes it.
\<close>

theorem watermark_handlers_fire_late:
  "highWaterMark (watermark_ring Circular_Fifo_Mode_Blocking) = 1 \<and>
   lowWaterMark (watermark_ring Circular_Fifo_Mode_Single_Producer_Lockless) = 2 \<and>
   a_count (pushes [10, 11] (watermark_ring Circular_Fifo_Mode_Blocking)) = 2 \<and>
   fired (pushes [10, 11] (watermark_ring Circular_Fifo_Mode_Blocking)) = [] \<and>
   fired (pushes [10, 11, 12] (watermark_ring Circular_Fifo_Mode_Blocking)) = [HighWaterMarkHandler] \<and>
   a_count (pushes [10, 11] (watermark_ring Circular_Fifo_Mode_Single_Producer_Lockless)) = 2 \<and>
   fired (pushes [10, 11] (watermark_ring Circular_Fifo_Mode_Single_Producer_Lockless)) = [] \<and>
   fired (pushes [10, 11, 12] (watermark_ring Circular_Fifo_Mode_Single_Producer_Lockless)) = [HighWaterMarkHandler] \<and>
   a_count (popped 2 0 (pushes [10, 11, 12] (watermark_ring Circular_Fifo_Mode_Single_Producer_Lockless))) = 1 \<and>
   fired (popped 2 0 (pushes [10, 11, 12] (watermark_ring Circular_Fifo_Mode_Single_Producer_Lockless))) = [HighWaterMarkHandler] \<and>
   fired (popped 3 0 (pushes [10, 11, 12] (watermark_ring Circular_Fifo_Mode_Single_Producer_Lockless))) = [HighWaterMarkHandler, LowWaterMarkHandler] \<and>
   a_count (popped 2 0 (pushes [10, 11, 12] (watermark_ring Circular_Fifo_Mode_Blocking))) = 1 \<and>
   fired (popped 2 0 (pushes [10, 11, 12] (watermark_ring Circular_Fifo_Mode_Blocking))) = [HighWaterMarkHandler, LowWaterMarkHandler]"
proof -
  have c0: "highWaterMark (watermark_ring Circular_Fifo_Mode_Blocking) = 1"
    unfolding watermark_ring_def by code_simp
  have c1: "lowWaterMark (watermark_ring Circular_Fifo_Mode_Single_Producer_Lockless) = 2"
    unfolding watermark_ring_def by code_simp
  have c2: "a_count (pushes [10, 11] (watermark_ring Circular_Fifo_Mode_Blocking)) = 2"
    unfolding watermark_ring_def by code_simp
  have c3: "fired (pushes [10, 11] (watermark_ring Circular_Fifo_Mode_Blocking)) = []"
    unfolding watermark_ring_def by code_simp
  have c4: "fired (pushes [10, 11, 12] (watermark_ring Circular_Fifo_Mode_Blocking)) = [HighWaterMarkHandler]"
    unfolding watermark_ring_def by code_simp
  have c5: "a_count (pushes [10, 11] (watermark_ring Circular_Fifo_Mode_Single_Producer_Lockless)) = 2"
    unfolding watermark_ring_def by code_simp
  have c6: "fired (pushes [10, 11] (watermark_ring Circular_Fifo_Mode_Single_Producer_Lockless)) = []"
    unfolding watermark_ring_def by code_simp
  have c7: "fired (pushes [10, 11, 12] (watermark_ring Circular_Fifo_Mode_Single_Producer_Lockless)) = [HighWaterMarkHandler]"
    unfolding watermark_ring_def by code_simp
  have c8: "a_count (popped 2 0 (pushes [10, 11, 12] (watermark_ring Circular_Fifo_Mode_Single_Producer_Lockless))) = 1"
    unfolding watermark_ring_def by code_simp
  have c9: "fired (popped 2 0 (pushes [10, 11, 12] (watermark_ring Circular_Fifo_Mode_Single_Producer_Lockless))) = [HighWaterMarkHandler]"
    unfolding watermark_ring_def by code_simp
  have c10: "fired (popped 3 0 (pushes [10, 11, 12] (watermark_ring Circular_Fifo_Mode_Single_Producer_Lockless))) = [HighWaterMarkHandler, LowWaterMarkHandler]"
    unfolding watermark_ring_def by code_simp
  have c11: "a_count (popped 2 0 (pushes [10, 11, 12] (watermark_ring Circular_Fifo_Mode_Blocking))) = 1"
    unfolding watermark_ring_def by code_simp
  have c12: "fired (popped 2 0 (pushes [10, 11, 12] (watermark_ring Circular_Fifo_Mode_Blocking))) = [HighWaterMarkHandler, LowWaterMarkHandler]"
    unfolding watermark_ring_def by code_simp
  show ?thesis
    using c0 c1 c2 c3 c4 c5 c6 c7 c8 c9 c10 c11 c12 by simp
qed

section \<open>Properties of the pooled commands\<close>

lemma upd_simps:
  "cmds (upd_cmd a g s) = (cmds s)(a := g (cmds s a))"
  "pools (upd_cmd a g s) = pools s"
  "calls (upd_cmd a g s) = calls s"
  "cmds (upd_pool p h s) = cmds s"
  "pools (upd_pool p h s) = (pools s)(p := h (pools s p))"
  "calls (upd_pool p h s) = calls s"
  by (simp_all add: upd_cmd_def upd_pool_def)

lemma acquire_from_free_list:
  assumes "free_list (pools s p) = Some a"
  shows "fst (ff_cmd_pool_acquire (Some p) mem s) = Some a"
    and "clean_cell (cmds (snd (ff_cmd_pool_acquire (Some p) mem s)) a)"
    and "cmd_pool (cmds (snd (ff_cmd_pool_acquire (Some p) mem s)) a) = cmd_pool (cmds s a)"
    and "pools (snd (ff_cmd_pool_acquire (Some p) mem s)) p =
           (pools s p)\<lparr>free_list := cmd_next (cmds s a), free_count := free_count (pools s p) - 1\<rparr>"
    and "calls (snd (ff_cmd_pool_acquire (Some p) mem s)) = calls s"
  using assms by (simp_all add: ff_cmd_pool_acquire_def upd_simps clean_cell_def)

lemma acquire_new_cell:
  assumes "free_list (pools s p) = None"
    and "max_size (pools s p) = 0 \<or> total_count (pools s p) < max_size (pools s p)"
    and "mem = Some a"
  shows "fst (ff_cmd_pool_acquire (Some p) mem s) = Some a"
    and "clean_cell (cmds (snd (ff_cmd_pool_acquire (Some p) mem s)) a)"
    and "cmd_pool (cmds (snd (ff_cmd_pool_acquire (Some p) mem s)) a) = Some p"
    and "pools (snd (ff_cmd_pool_acquire (Some p) mem s)) p =
           (pools s p)\<lparr>total_count := total_count (pools s p) + 1\<rparr>"
    and "calls (snd (ff_cmd_pool_acquire (Some p) mem s)) = calls s"
  using assms
  by (auto simp: ff_cmd_pool_acquire_def upd_simps clean_cell_def zeroed_FFCmd_def)

lemma acquire_exhausted:
  assumes "free_list (pools s p) = None"
    and "\<not> (max_size (pools s p) = 0 \<or> total_count (pools s p) < max_size (pools s p))"
  shows "ff_cmd_pool_acquire (Some p) mem s = (None, s)"
  using assms by (simp add: ff_cmd_pool_acquire_def)

lemma acquire_out_of_memory:
  assumes "free_list (pools s p) = None"
  shows "ff_cmd_pool_acquire (Some p) None s = (None, s)"
  using assms by (simp add: ff_cmd_pool_acquire_def)

subsection \<open>Acquiring a command\<close>

text \<open>
  C7. \<open>ff_cmd_pool_acquire\<close> on a pool: when the free list is non-empty its first
  cell is returned, and the free count drops by one; when the free list is empty and
  \<open>max_size = 0\<close> or \<open>total_count < max_size\<close>, the cell that \<open>calloc\<close>
  returns is returned and \<open>total_count\<close> grows by one; when the free list is empty
  and the pool is at its maximum, null is returned and nothing changes. A returned cell
  has reference count \<open>1\<close>, type \<open>FF_CMD_NONE\<close>, and no payload, adapter,
  timestamps, flags, stream index, user data or free-list link (\<open>clean_cell\<close>).
\<close>

theorem pool_acquire_cases:
  assumes "r = ff_cmd_pool_acquire (Some p) mem s"
  shows "(free_list (pools s p) = Some a \<longrightarrow>
            fst r = Some a \<and> clean_cell (cmds (snd r) a) \<and>
            free_list (pools (snd r) p) = cmd_next (cmds s a) \<and>
            free_count (pools (snd r) p) = free_count (pools s p) - 1 \<and>
            total_count (pools (snd r) p) = total_count (pools s p)) \<and>
         (free_list (pools s p) = None \<and>
          (max_size (pools s p) = 0 \<or> total_count (pools s p) < max_size (pools s p)) \<and>
          mem = Some a \<longrightarrow>
            fst r = Some a \<and> clean_cell (cmds (snd r) a) \<and>
            cmd_pool (cmds (snd r) a) = Some p \<and>
            free_list (pools (snd r) p) = None \<and>
            free_count (pools (snd r) p) = free_count (pools s p) \<and>
            total_count (pools (snd r) p) = total_count (pools s p) + 1) \<and>
         (free_list (pools s p) = None \<and>
          \<not> (max_size (pools s p) = 0 \<or> total_count (pools s p) < max_size (pools s p)) \<longrightarrow>
            r = (None, s))"
proof (intro conjI impI)
  assume f: "free_list (pools s p) = Some a"
  note l = acquire_from_free_list [OF f, of mem, folded assms]
  show "fst r = Some a" by (rule l)
  show "clean_cell (cmds (snd r) a)" by (rule l)
  show "free_list (pools (snd r) p) = cmd_next (cmds s a)" by (simp add: l(4))
  show "free_count (pools (snd r) p) = free_count (pools s p) - 1" by (simp add: l(4))
  show "total_count (pools (snd r) p) = total_count (pools s p)" by (simp add: l(4))
next
  assume h: "free_list (pools s p) = None \<and>
      (max_size (pools s p) = 0 \<or> total_count (pools s p) < max_size (pools s p)) \<and> mem = Some a"
  then have h1: "free_list (pools s p) = None"
    and h2: "max_size (pools s p) = 0 \<or> total_count (pools s p) < max_size (pools s p)"
    and h3: "mem = Some a" by simp_all
  note l = acquire_new_cell [OF h1 h2 h3, folded assms]
  show "fst r = Some a" by (rule l)
  show "clean_cell (cmds (snd r) a)" by (rule l)
  show "cmd_pool (cmds (snd r) a) = Some p" by (rule l)
  show "free_list (pools (snd r) p) = None" by (simp add: l(4) h1)
  show "free_count (pools (snd r) p) = free_count (pools s p)" by (simp add: l(4))
  show "total_count (pools (snd r) p) = total_count (pools s p) + 1" by (simp add: l(4))
next
  assume "free_list (pools s p) = None \<and>
      \<not> (max_size (pools s p) = 0 \<or> total_count (pools s p) < max_size (pools s p))"
  then show "r = (None, s)" unfolding assms by (intro acquire_exhausted) simp_all
qed

theorem pool_acquire_cases_witness:
  "free_list (pools pool_e0 100) = Some 2 \<and>
   fst (ff_cmd_pool_acquire (Some 100) None pool_e0) = Some 2 \<and>
   clean_cell (cmds (snd (ff_cmd_pool_acquire (Some 100) None pool_e0)) 2) \<and>
   free_count (pools (snd (ff_cmd_pool_acquire (Some 100) None pool_e0)) 100) = 1 \<and>
   free_list (pools pool_unlimited 100) = None \<and> max_size (pools pool_unlimited 100) = 0 \<and>
   fst (ff_cmd_pool_acquire (Some 100) (Some 7) pool_unlimited) = Some 7 \<and>
   clean_cell (cmds (snd (ff_cmd_pool_acquire (Some 100) (Some 7) pool_unlimited)) 7) \<and>
   total_count (pools (snd (ff_cmd_pool_acquire (Some 100) (Some 7) pool_unlimited)) 100) = 1 \<and>
   free_list (pools pool_e2 100) = None \<and> max_size (pools pool_e2 100) = 2 \<and>
   total_count (pools pool_e2 100) = 2 \<and>
   ff_cmd_pool_acquire (Some 100) (Some 3) pool_e2 = (None, pool_e2)"
proof -
  have a: "free_list (pools pool_e0 100) = Some 2"
    unfolding pool_e0_def by code_simp
  have a1: "free_count (pools pool_e0 100) = 2"
    unfolding pool_e0_def by code_simp
  have b: "free_list (pools pool_unlimited 100) = None"
    unfolding pool_unlimited_def by code_simp
  have b1: "max_size (pools pool_unlimited 100) = 0"
    unfolding pool_unlimited_def by code_simp
  have b2: "total_count (pools pool_unlimited 100) = 0"
    unfolding pool_unlimited_def by code_simp
  have c: "free_list (pools pool_e2 100) = None"
    unfolding pool_e2_def pool_e0_def by code_simp
  have c1: "max_size (pools pool_e2 100) = 2"
    unfolding pool_e2_def pool_e0_def by code_simp
  have c2: "total_count (pools pool_e2 100) = 2"
    unfolding pool_e2_def pool_e0_def by code_simp
  from pool_acquire_cases [OF refl, of pool_e0 100 2 None] a a1
  have A: "fst (ff_cmd_pool_acquire (Some 100) None pool_e0) = Some 2 \<and>
      clean_cell (cmds (snd (ff_cmd_pool_acquire (Some 100) None pool_e0)) 2) \<and>
      free_count (pools (snd (ff_cmd_pool_acquire (Some 100) None pool_e0)) 100) = 1"
    by simp
  from pool_acquire_cases [OF refl, of pool_unlimited 100 7 "Some 7"] b b1 b2
  have B: "fst (ff_cmd_pool_acquire (Some 100) (Some 7) pool_unlimited) = Some 7 \<and>
      clean_cell (cmds (snd (ff_cmd_pool_acquire (Some 100) (Some 7) pool_unlimited)) 7) \<and>
      total_count (pools (snd (ff_cmd_pool_acquire (Some 100) (Some 7) pool_unlimited)) 100) = 1"
    by simp
  from pool_acquire_cases [OF refl, of pool_e2 100 0 "Some 3"] c c1 c2
  have C: "ff_cmd_pool_acquire (Some 100) (Some 3) pool_e2 = (None, pool_e2)"
    by simp
  from a A b b1 B c c1 c2 C show ?thesis by simp
qed

lemma clear_data_fields:
  "cmd_refcount (cmds (ff_cmd_clear_data (Some a) s) a) = cmd_refcount (cmds s a)"
  "cmd_pool (cmds (ff_cmd_clear_data (Some a) s) a) = cmd_pool (cmds s a)"
  "data (cmds (ff_cmd_clear_data (Some a) s) a) = None"
  "data_ref (cmds (ff_cmd_clear_data (Some a) s) a) = None"
  "pools (ff_cmd_clear_data (Some a) s) = pools s"
  by (simp_all add: ff_cmd_clear_data_def upd_simps Let_def split: option.splits)

lemma clear_data_calls:
  "calls (ff_cmd_clear_data (Some a) s) =
     calls s @
       (case (data (cmds s a), data_ref (cmds s a)) of
          (Some d, Some r) \<Rightarrow> if Release r \<noteq> None then [Release_call r d] else []
        | _ \<Rightarrow> [])"
  by (simp add: ff_cmd_clear_data_def upd_simps Let_def split: option.splits)

lemma pool_return_fields:
  "pools (ff_cmd_pool_return (Some p) (Some a) s) p =
     (pools s p)\<lparr>free_list := Some a, free_count := free_count (pools s p) + 1\<rparr>"
  "cmd_next (cmds (ff_cmd_pool_return (Some p) (Some a) s) a) = free_list (pools s p)"
  "cmd_refcount (cmds (ff_cmd_pool_return (Some p) (Some a) s) a) = cmd_refcount (cmds s a)"
  "cmd_pool (cmds (ff_cmd_pool_return (Some p) (Some a) s) a) = cmd_pool (cmds s a)"
  "type (cmds (ff_cmd_pool_return (Some p) (Some a) s) a) = FF_CMD_NONE"
  "data (cmds (ff_cmd_pool_return (Some p) (Some a) s) a) = None"
  "data_ref (cmds (ff_cmd_pool_return (Some p) (Some a) s) a) = None"
  "calls (ff_cmd_pool_return (Some p) (Some a) s) = calls s"
  by (simp_all add: ff_cmd_pool_return_def upd_simps Let_def)

lemma release_last_reference:
  assumes "cmd_refcount (cmds s a) = 1" and "cmd_pool (cmds s a) = Some p"
  shows "cmd_release (Some a) s =
           (0, ff_cmd_pool_return (Some p) (Some a)
                 (ff_cmd_clear_data (Some a) (upd_cmd a (\<lambda>c. c\<lparr>cmd_refcount := 0\<rparr>) s)))"
  using assms by (simp add: cmd_release_def Let_def clear_data_fields upd_simps)

subsection \<open>The final release\<close>

text \<open>
  C8. A release that takes the reference count from \<open>1\<close> to \<open>0\<close> returns
  \<open>0\<close>; it first clears the data (calling the adapter's \<open>Release\<close> on an attached
  payload) and then returns the cell to its owning pool: the cell is the head of that
  pool's free list, the free count has grown by one, and the next acquire from that pool
  returns this very cell, clean, with type \<open>FF_CMD_NONE\<close> and reference count
  \<open>1\<close>.
\<close>

theorem final_release_returns_cell:
  assumes "cmd_refcount (cmds s a) = 1" and "cmd_pool (cmds s a) = Some p"
  shows "cmd_release (Some a) s =
           (0, ff_cmd_pool_return (Some p) (Some a)
                 (ff_cmd_clear_data (Some a) (upd_cmd a (\<lambda>c. c\<lparr>cmd_refcount := 0\<rparr>) s))) \<and>
         calls (snd (cmd_release (Some a) s)) =
           calls s @
             (case (data (cmds s a), data_ref (cmds s a)) of
                (Some d, Some r) \<Rightarrow> if Release r \<noteq> None then [Release_call r d] else []
              | _ \<Rightarrow> []) \<and>
         free_list (pools (snd (cmd_release (Some a) s)) p) = Some a \<and>
         free_count (pools (snd (cmd_release (Some a) s)) p) = free_count (pools s p) + 1 \<and>
         fst (ff_cmd_pool_acquire (Some p) mem (snd (cmd_release (Some a) s))) = Some a \<and>
         clean_cell (cmds (snd (ff_cmd_pool_acquire (Some p) mem (snd (cmd_release (Some a) s)))) a)"
proof -
  let ?s1 = "upd_cmd a (\<lambda>c. c\<lparr>cmd_refcount := 0\<rparr>) s"
  let ?s2 = "ff_cmd_clear_data (Some a) ?s1"
  let ?s3 = "ff_cmd_pool_return (Some p) (Some a) ?s2"
  have r: "cmd_release (Some a) s = (0, ?s3)"
    using assms by (rule release_last_reference)
  have c: "calls ?s3 =
      calls s @
        (case (data (cmds s a), data_ref (cmds s a)) of
           (Some d, Some r) \<Rightarrow> if Release r \<noteq> None then [Release_call r d] else []
         | _ \<Rightarrow> [])"
    by (simp add: pool_return_fields clear_data_calls upd_simps)
  have fl: "free_list (pools ?s3 p) = Some a"
    by (simp add: pool_return_fields)
  have fc: "free_count (pools ?s3 p) = free_count (pools s p) + 1"
    by (simp add: pool_return_fields clear_data_fields upd_simps)
  note acq = acquire_from_free_list [OF fl, of mem]
  show ?thesis
    using r c fl fc acq(1,2) by simp
qed

theorem final_release_returns_cell_witness:
  "ff_cmd_pool_acquire (Some 100) (Some 3) pool_e2 = (None, pool_e2) \<and>
   cmd_refcount (cmds scenario_e 2) = 1 \<and> cmd_pool (cmds scenario_e 2) = Some 100 \<and>
   free_count (pools scenario_e 100) = 0 \<and>
   fst (cmd_release (Some 2) scenario_e) = 0 \<and>
   free_count (pools (snd (cmd_release (Some 2) scenario_e)) 100) = 1 \<and>
   fst (ff_cmd_pool_acquire (Some 100) None (snd (cmd_release (Some 2) scenario_e))) = Some 2 \<and>
   clean_cell (cmds (snd (ff_cmd_pool_acquire (Some 100) None (snd (cmd_release (Some 2) scenario_e)))) 2)"
proof -
  have x: "ff_cmd_pool_acquire (Some 100) (Some 3) pool_e2 = (None, pool_e2)"
  proof (rule acquire_exhausted)
    show "free_list (pools pool_e2 100) = None"
      unfolding pool_e2_def pool_e0_def by code_simp
    show "\<not> (max_size (pools pool_e2 100) = 0 \<or>
        total_count (pools pool_e2 100) < max_size (pools pool_e2 100))"
      unfolding pool_e2_def pool_e0_def by code_simp
  qed
  have a: "cmd_refcount (cmds scenario_e 2) = 1"
    unfolding scenario_e_def pool_e2_def pool_e0_def by code_simp
  have b: "cmd_pool (cmds scenario_e 2) = Some 100"
    unfolding scenario_e_def pool_e2_def pool_e0_def by code_simp
  have c: "free_count (pools scenario_e 100) = 0"
    unfolding scenario_e_def pool_e2_def pool_e0_def by code_simp
  note t = final_release_returns_cell [OF a b, of None]
  have t1: "fst (cmd_release (Some 2) scenario_e) = 0"
    using t [THEN conjunct1] by simp
  have t4: "free_count (pools (snd (cmd_release (Some 2) scenario_e)) 100) = 1"
    using t [THEN conjunct2, THEN conjunct2, THEN conjunct2, THEN conjunct1] c by simp
  have t5: "fst (ff_cmd_pool_acquire (Some 100) None (snd (cmd_release (Some 2) scenario_e))) = Some 2"
    using t [THEN conjunct2, THEN conjunct2, THEN conjunct2, THEN conjunct2, THEN conjunct1] .
  have t6: "clean_cell (cmds (snd (ff_cmd_pool_acquire (Some 100) None (snd (cmd_release (Some 2) scenario_e)))) 2)"
    using t [THEN conjunct2, THEN conjunct2, THEN conjunct2, THEN conjunct2, THEN conjunct2] .
  from x a b c t1 t4 t5 t6 show ?thesis by blast
qed

lemma clear_data_balanced:
  assumes "Release r \<noteq> None" and "balanced s c r p"
  shows "balanced (ff_cmd_clear_data (Some c) s) c r p"
    and "held (ff_cmd_clear_data (Some c) s) c r p = 0"
  using assms
  by (auto simp: balanced_def held_def clear_data_fields clear_data_calls split: option.splits)

lemma set_data_balanced:
  assumes "AddRef r \<noteq> None" and "Release r \<noteq> None" and "balanced s c r p"
  shows "balanced (ff_cmd_set_data (Some c) d dr s) c r p"
proof -
  let ?s1 = "ff_cmd_clear_data (Some c) s"
  have b: "balanced ?s1 c r p" and h: "held ?s1 c r p = 0"
    using clear_data_balanced [OF assms(2,3)] by simp_all
  then have e: "count_list (calls ?s1) (AddRef_call r p) = count_list (calls ?s1) (Release_call r p)"
    by (simp add: balanced_def)
  show ?thesis
    using e assms(1)
    by (auto simp: ff_cmd_set_data_def Let_def balanced_def held_def upd_simps split: option.splits)
qed

lemma init_balanced:
  assumes "Release r \<noteq> None" and "balanced s c r p"
  shows "balanced (ff_cmd_init (Some c) t s) c r p"
  using clear_data_balanced [OF assms]
  by (simp add: ff_cmd_init_def balanced_def held_def upd_simps)

lemma addref_balanced:
  assumes "balanced s c r p"
  shows "balanced (snd (cmd_addref (Some c) s)) c r p"
  using assms by (simp add: cmd_addref_def Let_def balanced_def held_def upd_simps)

lemma refcount_balanced:
  "balanced (upd_cmd c (\<lambda>x. x\<lparr>cmd_refcount := n\<rparr>) s) c r p = balanced s c r p"
  by (simp add: balanced_def held_def upd_simps)

lemma pool_return_balanced:
  assumes "balanced s c r p" and "held s c r p = 0"
  shows "balanced (ff_cmd_pool_return (Some q) (Some c) s) c r p"
  using assms by (simp add: balanced_def held_def pool_return_fields)

lemma release_balanced:
  assumes "Release r \<noteq> None" and "balanced s c r p"
  shows "balanced (snd (cmd_release (Some c) s)) c r p"
proof -
  let ?n = "cmd_refcount (cmds s c) - 1"
  let ?s1 = "upd_cmd c (\<lambda>x. x\<lparr>cmd_refcount := ?n\<rparr>) s"
  have b1: "balanced ?s1 c r p" using assms(2) by (simp add: refcount_balanced)
  note cl = clear_data_balanced [OF assms(1) b1]
  show ?thesis
  proof (cases "?n = 0")
    case False
    then show ?thesis using b1 by (simp add: cmd_release_def Let_def)
  next
    case True
    show ?thesis
    proof (cases "cmd_pool (cmds (ff_cmd_clear_data (Some c) ?s1) c)")
      case None
      with True cl show ?thesis by (simp add: cmd_release_def Let_def)
    next
      case (Some q)
      with True pool_return_balanced [OF cl, of q] show ?thesis
        by (simp add: cmd_release_def Let_def)
    qed
  qed
qed

lemma release_to_zero_clears:
  assumes "cmd_refcount (cmds (snd (cmd_release (Some c) s)) c) = 0"
  shows "data (cmds (snd (cmd_release (Some c) s)) c) = None"
proof (cases "cmd_refcount (cmds s c) - 1 = 0")
  case True
  then show ?thesis
    by (simp add: cmd_release_def Let_def clear_data_fields pool_return_fields
        split: option.splits)
next
  case False
  with assms show ?thesis
    by (simp add: cmd_release_def Let_def upd_simps)
qed

lemma step_balanced:
  assumes "AddRef r \<noteq> None" and "Release r \<noteq> None" and "balanced s c r p"
  shows "balanced (cmd_step c x s) c r p"
  using assms
  by (cases x)
    (simp_all add: init_balanced set_data_balanced clear_data_balanced addref_balanced
      release_balanced)

lemma run_balanced:
  "AddRef r \<noteq> None \<Longrightarrow> Release r \<noteq> None \<Longrightarrow> balanced s c r p \<Longrightarrow>
   balanced (cmd_run c xs s) c r p"
  by (induction xs arbitrary: s) (simp_all add: step_balanced)

lemma cmd_run_append: "cmd_run c (xs @ ys) s = cmd_run c ys (cmd_run c xs s)"
  by (induction xs arbitrary: s) simp_all

lemma step_calls_grow:
  "count_list (calls s) e \<le> count_list (calls (cmd_step c x s)) e"
proof (cases x)
  case (C_init t)
  then show ?thesis by (simp add: ff_cmd_init_def upd_simps clear_data_calls)
next
  case (C_set_data d dr)
  then show ?thesis
    by (simp add: ff_cmd_set_data_def Let_def upd_simps clear_data_calls split: option.splits)
next
  case C_clear_data
  then show ?thesis by (simp add: clear_data_calls)
next
  case C_addref
  then show ?thesis by (simp add: cmd_addref_def Let_def upd_simps)
next
  case C_release
  then show ?thesis
    by (simp add: cmd_release_def Let_def upd_simps clear_data_calls pool_return_fields
        split: option.splits)
qed

lemma run_calls_grow:
  "count_list (calls s) e \<le> count_list (calls (cmd_run c xs s)) e"
proof (induction xs arbitrary: s)
  case Nil
  then show ?case by simp
next
  case (Cons x xs)
  have "count_list (calls s) e \<le> count_list (calls (cmd_step c x s)) e"
    by (rule step_calls_grow)
  also have "\<dots> \<le> count_list (calls (cmd_run c xs (cmd_step c x s))) e"
    by (rule Cons.IH)
  finally show ?case by simp
qed

lemma set_data_calls_AddRef:
  assumes "AddRef r \<noteq> None"
  shows "1 \<le> count_list (calls (ff_cmd_set_data (Some c) (Some p) (Some r) s)) (AddRef_call r p)"
  using assms by (simp add: ff_cmd_set_data_def Let_def upd_simps)

subsection \<open>Payload references\<close>

text \<open>
  C9, as amended. Take a command without payload (as \<open>ff_cmd_pool_acquire\<close> returns
  it) and an adapter whose \<open>AddRef\<close> and \<open>Release\<close> are both non-null. After any
  sequence of \<open>init\<close>, \<open>set_data\<close>, \<open>clear_data\<close>, add-ref and release calls
  on the command that attaches payload \<open>p\<close> with this adapter at least once, followed
  by a release that leaves the reference count at \<open>0\<close>, the adapter's \<open>AddRef\<close>
  has been called on \<open>p\<close> as often as its \<open>Release\<close>, and at least once.
\<close>

theorem payload_adapter_calls_balance:
  assumes "AddRef r \<noteq> None" and "Release r \<noteq> None"
    and "data (cmds s0 c) = None"
    and "C_set_data (Some p) (Some r) \<in> set xs"
    and "sf = cmd_run c (xs @ [C_release]) (s0\<lparr>calls := []\<rparr>)"
    and "cmd_refcount (cmds sf c) = 0"
  shows "count_list (calls sf) (AddRef_call r p) = count_list (calls sf) (Release_call r p) \<and>
         1 \<le> count_list (calls sf) (AddRef_call r p)"
proof -
  let ?s = "s0\<lparr>calls := []\<rparr>"
  let ?m = "cmd_run c xs ?s"
  have sf: "sf = snd (cmd_release (Some c) ?m)"
    by (simp add: assms(5) cmd_run_append)
  have "balanced ?s c r p" using assms(3) by (simp add: balanced_def held_def)
  then have "balanced sf c r p"
    unfolding assms(5) by (rule run_balanced [OF assms(1,2)])
  moreover have "data (cmds sf c) = None"
    using assms(6) unfolding sf by (rule release_to_zero_clears)
  ultimately have eq: "count_list (calls sf) (AddRef_call r p) = count_list (calls sf) (Release_call r p)"
    by (simp add: balanced_def held_def)
  from assms(4) obtain ys zs where xs: "xs = ys @ C_set_data (Some p) (Some r) # zs"
    by (auto dest: split_list)
  let ?a = "ff_cmd_set_data (Some c) (Some p) (Some r) (cmd_run c ys ?s)"
  have "sf = cmd_run c (zs @ [C_release]) ?a"
    by (simp add: assms(5) xs cmd_run_append)
  moreover have "1 \<le> count_list (calls ?a) (AddRef_call r p)"
    using assms(1) by (rule set_data_calls_AddRef)
  ultimately have "1 \<le> count_list (calls sf) (AddRef_call r p)"
    using run_calls_grow [of ?a "AddRef_call r p" c "zs @ [C_release]"] by simp
  with eq show ?thesis by simp
qed

theorem payload_adapter_calls_balance_witness:
  "AddRef both_adapter \<noteq> None \<and> Release both_adapter \<noteq> None \<and>
   data (cmds pool_e2 2) = None \<and>
   C_set_data (Some 50) (Some both_adapter) \<in> set scenario_f_calls \<and>
   cmd_refcount (cmds (cmd_run 2 (scenario_f_calls @ [C_release]) (pool_e2\<lparr>calls := []\<rparr>)) 2) = 0 \<and>
   count_list (calls (cmd_run 2 (scenario_f_calls @ [C_release]) (pool_e2\<lparr>calls := []\<rparr>)))
     (AddRef_call both_adapter 50) = 2 \<and>
   count_list (calls (cmd_run 2 (scenario_f_calls @ [C_release]) (pool_e2\<lparr>calls := []\<rparr>)))
     (Release_call both_adapter 50) = 2"
proof -
  let ?sf = "cmd_run 2 (scenario_f_calls @ [C_release]) (pool_e2\<lparr>calls := []\<rparr>)"
  have a: "AddRef both_adapter \<noteq> None" by (simp add: both_adapter_def)
  have b: "Release both_adapter \<noteq> None" by (simp add: both_adapter_def)
  have c: "data (cmds pool_e2 2) = None"
    unfolding pool_e2_def pool_e0_def by code_simp
  have d: "C_set_data (Some 50) (Some both_adapter) \<in> set scenario_f_calls"
    by (simp add: scenario_f_calls_def)
  have e: "cmd_refcount (cmds ?sf 2) = 0"
    unfolding scenario_f_calls_def pool_e2_def pool_e0_def both_adapter_def by code_simp
  have f: "count_list (calls ?sf) (AddRef_call both_adapter 50) = 2"
    unfolding scenario_f_calls_def pool_e2_def pool_e0_def both_adapter_def by code_simp
  from payload_adapter_calls_balance [OF a b c d refl e] f
  have "count_list (calls ?sf) (Release_call both_adapter 50) = 2" by simp
  with a b c d e f show ?thesis by blast
qed

text \<open>
  C9 as stated fails for a non-null adapter whose \<open>Release\<close> member is null:
  \<open>ff_cmd_set_data\<close> stores it and calls its \<open>AddRef\<close>, and the final release of
  the command calls nothing.
\<close>

theorem payload_adapter_counterexample:
  "data_ref (cmds (ff_cmd_set_data (Some 2) (Some 50) (Some addref_only_adapter) pool_e2) 2)
     = Some addref_only_adapter \<and>
   cmd_refcount (cmds (cmd_run 2 [C_set_data (Some 50) (Some addref_only_adapter), C_release]
     (pool_e2\<lparr>calls := []\<rparr>)) 2) = 0 \<and>
   count_list (calls (cmd_run 2 [C_set_data (Some 50) (Some addref_only_adapter), C_release]
     (pool_e2\<lparr>calls := []\<rparr>))) (AddRef_call addref_only_adapter 50) = 1 \<and>
   count_list (calls (cmd_run 2 [C_set_data (Some 50) (Some addref_only_adapter), C_release]
     (pool_e2\<lparr>calls := []\<rparr>))) (Release_call addref_only_adapter 50) = 0"
proof -
  have a: "data_ref (cmds (ff_cmd_set_data (Some 2) (Some 50) (Some addref_only_adapter) pool_e2) 2)
     = Some addref_only_adapter"
    unfolding pool_e2_def pool_e0_def addref_only_adapter_def by code_simp
  have b: "cmd_refcount (cmds (cmd_run 2 [C_set_data (Some 50) (Some addref_only_adapter), C_release]
     (pool_e2\<lparr>calls := []\<rparr>)) 2) = 0"
    unfolding pool_e2_def pool_e0_def addref_only_adapter_def by code_simp
  have c: "count_list (calls (cmd_run 2 [C_set_data (Some 50) (Some addref_only_adapter), C_release]
     (pool_e2\<lparr>calls := []\<rparr>))) (AddRef_call addref_only_adapter 50) = 1"
    unfolding pool_e2_def pool_e0_def addref_only_adapter_def by code_simp
  have d: "count_list (calls (cmd_run 2 [C_set_data (Some 50) (Some addref_only_adapter), C_release]
     (pool_e2\<lparr>calls := []\<rparr>))) (Release_call addref_only_adapter 50) = 0"
    unfolding pool_e2_def pool_e0_def addref_only_adapter_def by code_simp
  from a b c d show ?thesis by blast
qed

end
